theory Spec2Isabelle
  imports Main "HOL-Library.Word"
begin

unbundle bit_operations_syntax

section \<open>Machine types and memory\<close>

text \<open>
  The fixed-width integers of \<^verbatim>\<open>stdint.h\<close> are words. \<^verbatim>\<open>int\<close> is the 32-bit signed
  integer and \<^verbatim>\<open>size_t\<close> the 64-bit unsigned integer of the LP64 Linux targets that
  provide \<^verbatim>\<open>htobe64\<close>, \<^verbatim>\<open>arpa/inet.h\<close> and \<^verbatim>\<open>sys/socket.h\<close>; a \<^verbatim>\<open>cint\<close> is read with
  \<open>sint\<close>, every other word with \<open>unat\<close>.

  A \<^verbatim>\<open>double\<close> is held as its 8-byte object representation: the code never computes
  with a double, it only moves its bits with \<^verbatim>\<open>memcpy\<close> (\<^verbatim>\<open>write_double_be\<close>,
  \<^verbatim>\<open>read_double_be\<close>).
\<close>

type_synonym u8 = "8 word"
type_synonym u16 = "16 word"
type_synonym u32 = "32 word"
type_synonym u64 = "64 word"
type_synonym cint = "32 word"
type_synonym size_t = "64 word"
type_synonym double = "64 word"

text \<open>
  A \<^verbatim>\<open>uint8_t *\<close> is the memory that starts at the pointer: offset \<open>i\<close> is the byte
  \<^verbatim>\<open>p[i]\<close>. C keeps no bound with the pointer, and neither does the model: what a
  function reads or writes is decided by its code alone. A \<^verbatim>\<open>uint32_t *\<close> is the same
  with 32-bit cells.
\<close>

type_synonym mem = "nat \<Rightarrow> u8"

definition memcpy :: "mem \<Rightarrow> nat \<Rightarrow> u8 list \<Rightarrow> mem" where
  "memcpy m p bs = (\<lambda>i. if p \<le> i \<and> i < p + length bs then bs ! (i - p) else m i)"

definition memset :: "mem \<Rightarrow> nat \<Rightarrow> u8 \<Rightarrow> nat \<Rightarrow> mem" where
  "memset m p c n = memcpy m p (replicate n c)"

definition load :: "mem \<Rightarrow> nat \<Rightarrow> nat \<Rightarrow> u8 list" where
  "load m p n = map (\<lambda>i. m (p + i)) [0..<n]"

text \<open>
  An array laid out at a pointer: the elements of the list, then whatever memory follows.
\<close>

definition array_of :: "'a list \<Rightarrow> 'a \<Rightarrow> nat \<Rightarrow> 'a" where
  "array_of xs fill i = (if i < length xs then xs ! i else fill)"

subsection \<open>Network byte order\<close>

text \<open>
  \<^verbatim>\<open>x = htobe64(v); memcpy(ptr, &x, 8)\<close> leaves the bytes of \<open>v\<close> at \<open>ptr\<close>, most
  significant first, on a host of either byte order; \<^verbatim>\<open>htonl\<close> and \<^verbatim>\<open>htons\<close> do the
  same for 4 and 2 bytes. \<^verbatim>\<open>memcpy(&x, ptr, 8); x = be64toh(x)\<close> is the way back.
\<close>

definition be16_bytes :: "u16 \<Rightarrow> u8 list" where
  "be16_bytes x = [ucast (drop_bit 8 x), ucast x]"

definition be32_bytes :: "u32 \<Rightarrow> u8 list" where
  "be32_bytes x = [ucast (drop_bit 24 x), ucast (drop_bit 16 x), ucast (drop_bit 8 x), ucast x]"

definition be64_bytes :: "u64 \<Rightarrow> u8 list" where
  "be64_bytes x =
     [ucast (drop_bit 56 x), ucast (drop_bit 48 x), ucast (drop_bit 40 x), ucast (drop_bit 32 x),
      ucast (drop_bit 24 x), ucast (drop_bit 16 x), ucast (drop_bit 8 x), ucast x]"

fun be_word :: "'a::len word \<Rightarrow> u8 list \<Rightarrow> 'a word" where
  "be_word acc [] = acc"
| "be_word acc (b # bs) = be_word (push_bit 8 acc OR ucast b) bs"

definition put_be16 :: "mem \<Rightarrow> nat \<Rightarrow> u16 \<Rightarrow> mem" where
  "put_be16 m p x = memcpy m p (be16_bytes x)"

definition put_be32 :: "mem \<Rightarrow> nat \<Rightarrow> u32 \<Rightarrow> mem" where
  "put_be32 m p x = memcpy m p (be32_bytes x)"

definition put_be64 :: "mem \<Rightarrow> nat \<Rightarrow> u64 \<Rightarrow> mem" where
  "put_be64 m p x = memcpy m p (be64_bytes x)"

definition get_be16 :: "mem \<Rightarrow> nat \<Rightarrow> u16" where
  "get_be16 m p = be_word 0 (load m p 2)"

definition get_be32 :: "mem \<Rightarrow> nat \<Rightarrow> u32" where
  "get_be32 m p = be_word 0 (load m p 4)"

definition get_be64 :: "mem \<Rightarrow> nat \<Rightarrow> u64" where
  "get_be64 m p = be_word 0 (load m p 8)"

definition write_double_be :: "mem \<Rightarrow> nat \<Rightarrow> double \<Rightarrow> mem" where
  "write_double_be dest p v = put_be64 dest p v"

definition read_double_be :: "mem \<Rightarrow> nat \<Rightarrow> double" where
  "read_double_be src p = get_be64 src p"

section \<open>Records\<close>

text \<open>
  Modelled from the spec: the struct types \<^verbatim>\<open>Trade\<close>, \<^verbatim>\<open>Order\<close>, \<^verbatim>\<open>Tick\<close> and
  \<^verbatim>\<open>OrderBook\<close> that \<^verbatim>\<open>example.c\<close> uses are declared nowhere in the sources
  (\<^verbatim>\<open>model.h\<close> declares \<^verbatim>\<open>TradeBody\<close>, \<^verbatim>\<open>OrderBody\<close>, \<^verbatim>\<open>TickerBody\<close> and
  \<^verbatim>\<open>OrderBookBody\<close>). Their members are the ones the code accesses, with the types of the
  data model and of the structs of \<^verbatim>\<open>model.h\<close>. A \<^verbatim>\<open>uint8_t[n]\<close> member is a list of
  \<open>n\<close> bytes.
\<close>

record MitchHeader =
  message_type :: u8
  timestamp :: "u8 list"
  count :: u8

record Trade =
  ticker_id :: u64
  price :: double
  quantity :: u32
  trade_id :: u32
  side :: u8
  padding :: "u8 list"

record Order =
  ticker_id :: u64
  order_id :: u32
  price :: double
  quantity :: u32
  type_and_side :: u8
  expiry :: "u8 list"
  padding :: u8

record Tick =
  ticker_id :: u64
  bid_price :: double
  ask_price :: double
  bid_volume :: u32
  ask_volume :: u32

record OrderBook =
  ticker_id :: u64
  first_tick :: double
  tick_size :: double
  num_ticks :: u16
  side :: u8
  padding :: "u8 list"

definition valid_Order :: "Order \<Rightarrow> bool" where
  "valid_Order r = (length (expiry r) = 6)"

definition MITCH_MSG_TYPE_ORDER_BOOK :: u8 where
  "MITCH_MSG_TYPE_ORDER_BOOK = 0x71"

section \<open>Packing\<close>

text \<open>
  Every function takes the memory at \<^verbatim>\<open>buffer\<close> and returns it updated, with the
  function's \<^verbatim>\<open>int\<close> result. \<open>ptr\<close> is the offset of the C pointer \<^verbatim>\<open>ptr\<close> from
  \<^verbatim>\<open>buffer\<close>.
\<close>

definition pack_trade_body :: "Trade \<Rightarrow> mem \<Rightarrow> mem \<times> cint" where
  "pack_trade_body trade buffer =
     (let ptr = 0;
          b = put_be64 buffer ptr (Trade.ticker_id trade); ptr = ptr + 8;
          b = write_double_be b ptr (Trade.price trade); ptr = ptr + 8;
          b = put_be32 b ptr (Trade.quantity trade); ptr = ptr + 4;
          b = put_be32 b ptr (trade_id trade); ptr = ptr + 4;
          b = b(ptr := Trade.side trade); ptr = ptr + 1;
          b = memset b ptr 0 7
      in (b, 32))"

definition pack_order_body :: "Order \<Rightarrow> mem \<Rightarrow> mem \<times> cint" where
  "pack_order_body order buffer =
     (let ptr = 0;
          b = put_be64 buffer ptr (Order.ticker_id order); ptr = ptr + 8;
          b = put_be32 b ptr (order_id order); ptr = ptr + 4;
          b = write_double_be b ptr (Order.price order); ptr = ptr + 8;
          b = put_be32 b ptr (Order.quantity order); ptr = ptr + 4;
          b = b(ptr := type_and_side order); ptr = ptr + 1;
          b = memcpy b ptr (take 6 (expiry order)); ptr = ptr + 6;
          b = b(ptr := Order.padding order)
      in (b, 32))"

definition pack_ticker_body :: "Tick \<Rightarrow> mem \<Rightarrow> mem \<times> cint" where
  "pack_ticker_body ticker buffer =
     (let ptr = 0;
          b = put_be64 buffer ptr (Tick.ticker_id ticker); ptr = ptr + 8;
          b = write_double_be b ptr (bid_price ticker); ptr = ptr + 8;
          b = write_double_be b ptr (ask_price ticker); ptr = ptr + 8;
          b = put_be32 b ptr (bid_volume ticker); ptr = ptr + 4;
          b = put_be32 b ptr (ask_volume ticker)
      in (b, 32))"

text \<open>
  The volume loop of \<^verbatim>\<open>pack_order_book_body\<close>. The counter \<^verbatim>\<open>int i\<close> stays within
  \<open>0..65535\<close>, so it is a natural number; \<open>n\<close> is \<^verbatim>\<open>order_book->num_ticks\<close>.
\<close>

function pack_volumes :: "nat \<Rightarrow> nat \<Rightarrow> (nat \<Rightarrow> u32) \<Rightarrow> nat \<Rightarrow> mem \<Rightarrow> mem" where
  "pack_volumes i n volumes ptr b =
     (if i < n then pack_volumes (i + 1) n volumes (ptr + 4) (put_be32 b ptr (volumes i))
      else b)"
  by pat_completeness auto
termination
  by (relation "measure (\<lambda>(i, n, volumes, ptr, b). n - i)") auto

declare pack_volumes.simps [simp del]

definition pack_order_book_body :: "OrderBook \<Rightarrow> (nat \<Rightarrow> u32) \<Rightarrow> mem \<Rightarrow> mem \<times> cint" where
  "pack_order_book_body order_book volumes buffer =
     (let ptr = 0;
          b = put_be64 buffer ptr (OrderBook.ticker_id order_book); ptr = ptr + 8;
          b = write_double_be b ptr (first_tick order_book); ptr = ptr + 8;
          b = write_double_be b ptr (tick_size order_book); ptr = ptr + 8;
          b = put_be16 b ptr (num_ticks order_book); ptr = ptr + 2;
          b = b(ptr := OrderBook.side order_book); ptr = ptr + 1;
          b = memset b ptr 0 5; ptr = ptr + 5;
          b = pack_volumes 0 (unat (num_ticks order_book)) volumes ptr b
      in (b, 32 + ucast (num_ticks order_book) * 4))"

section \<open>Unpacking\<close>

text \<open>
  Every unpacking function assigns every member of the struct it is given, so the model
  returns the struct. \<^verbatim>\<open>unpack_order_book_body\<close> stores into \<^verbatim>\<open>volumes[0..num_ticks-1]\<close>
  and leaves the rest of that array as it was.
\<close>

definition unpack_header :: "mem \<Rightarrow> MitchHeader \<times> cint" where
  "unpack_header buffer =
     (\<lparr>message_type = buffer 0, timestamp = load buffer 1 6, count = buffer 7\<rparr>, 8)"

definition unpack_trade_body :: "mem \<Rightarrow> Trade \<times> cint" where
  "unpack_trade_body buffer =
     (let ptr = 0;
          v_ticker_id = get_be64 buffer ptr; ptr = ptr + 8;
          v_price = read_double_be buffer ptr; ptr = ptr + 8;
          v_quantity = get_be32 buffer ptr; ptr = ptr + 4;
          v_trade_id = get_be32 buffer ptr; ptr = ptr + 4;
          v_side = buffer ptr; ptr = ptr + 1;
          v_padding = load buffer ptr 7
      in (\<lparr>Trade.ticker_id = v_ticker_id, price = v_price, quantity = v_quantity,
           trade_id = v_trade_id, side = v_side, padding = v_padding\<rparr>, 32))"

definition unpack_order_body :: "mem \<Rightarrow> Order \<times> cint" where
  "unpack_order_body buffer =
     (let ptr = 0;
          v_ticker_id = get_be64 buffer ptr; ptr = ptr + 8;
          v_order_id = get_be32 buffer ptr; ptr = ptr + 4;
          v_price = read_double_be buffer ptr; ptr = ptr + 8;
          v_quantity = get_be32 buffer ptr; ptr = ptr + 4;
          v_type_and_side = buffer ptr; ptr = ptr + 1;
          v_expiry = load buffer ptr 6; ptr = ptr + 6;
          v_padding = buffer ptr
      in (\<lparr>Order.ticker_id = v_ticker_id, order_id = v_order_id, price = v_price,
           quantity = v_quantity, type_and_side = v_type_and_side, expiry = v_expiry,
           padding = v_padding\<rparr>, 32))"

definition unpack_ticker_body :: "mem \<Rightarrow> Tick \<times> cint" where
  "unpack_ticker_body buffer =
     (let ptr = 0;
          v_ticker_id = get_be64 buffer ptr; ptr = ptr + 8;
          v_bid_price = read_double_be buffer ptr; ptr = ptr + 8;
          v_ask_price = read_double_be buffer ptr; ptr = ptr + 8;
          v_bid_volume = get_be32 buffer ptr; ptr = ptr + 4;
          v_ask_volume = get_be32 buffer ptr
      in (\<lparr>Tick.ticker_id = v_ticker_id, bid_price = v_bid_price, ask_price = v_ask_price,
           bid_volume = v_bid_volume, ask_volume = v_ask_volume\<rparr>, 32))"

function unpack_volumes :: "nat \<Rightarrow> nat \<Rightarrow> nat \<Rightarrow> mem \<Rightarrow> (nat \<Rightarrow> u32) \<Rightarrow> (nat \<Rightarrow> u32)" where
  "unpack_volumes i n ptr buffer volumes =
     (if i < n then unpack_volumes (i + 1) n (ptr + 4) buffer (volumes(i := get_be32 buffer ptr))
      else volumes)"
  by pat_completeness auto
termination
  by (relation "measure (\<lambda>(i, n, ptr, buffer, volumes). n - i)") auto

declare unpack_volumes.simps [simp del]

definition unpack_order_book_body ::
  "mem \<Rightarrow> (nat \<Rightarrow> u32) \<Rightarrow> OrderBook \<times> (nat \<Rightarrow> u32) \<times> cint" where
  "unpack_order_book_body buffer volumes =
     (let ptr = 0;
          v_ticker_id = get_be64 buffer ptr; ptr = ptr + 8;
          v_first_tick = read_double_be buffer ptr; ptr = ptr + 8;
          v_tick_size = read_double_be buffer ptr; ptr = ptr + 8;
          v_num_ticks = get_be16 buffer ptr; ptr = ptr + 2;
          v_side = buffer ptr; ptr = ptr + 1;
          v_padding = load buffer ptr 5; ptr = ptr + 5;
          vols = unpack_volumes 0 (unat v_num_ticks) ptr buffer volumes
      in (\<lparr>OrderBook.ticker_id = v_ticker_id, first_tick = v_first_tick,
           tick_size = v_tick_size, num_ticks = v_num_ticks, side = v_side,
           padding = v_padding\<rparr>, vols, 32 + ucast v_num_ticks * 4))"

section \<open>Example data\<close>

text \<open>
  A memory of zero bytes. The trade of \<^verbatim>\<open>example_usage\<close>: EUR/USD at 1.0850, whose
  IEEE-754 bit pattern is \<open>0x3FF15C28F5C28F5C\<close>, here with a padding member that is not
  zero. An order that carries a quiet NaN as its price and a padding byte that is not zero.
  A tick whose ask price is plus infinity.
\<close>

definition zero_mem :: mem where
  "zero_mem = (\<lambda>i. 0)"

definition example_trade :: Trade where
  "example_trade = \<lparr>Trade.ticker_id = 0x00006F001CD00000, price = 0x3FF15C28F5C28F5C,
     quantity = 1000000, trade_id = 12345, side = 0, padding = [1, 2, 3, 4, 5, 6, 7]\<rparr>"

definition example_order :: Order where
  "example_order = \<lparr>Order.ticker_id = 0x00006F001CD00000, order_id = 7,
     price = 0x7FF8000000000001, quantity = 1000000, type_and_side = 3,
     expiry = [0, 1, 2, 3, 4, 5], padding = 0xFF\<rparr>"

definition example_tick :: Tick where
  "example_tick = \<lparr>Tick.ticker_id = 0x00006F001CD00000, bid_price = 0x3FF15C28F5C28F5C,
     ask_price = 0x7FF0000000000000, bid_volume = 10, ask_volume = 20\<rparr>"

text \<open>
  An order book of two ticks whose padding member is not zero; the 32-byte prefix of an
  order book of one tick, without its volume; and the same prefix followed by its volume.
\<close>

definition example_book :: OrderBook where
  "example_book = \<lparr>OrderBook.ticker_id = 0x00006F001CD00000, first_tick = 0x3FF15C28F5C28F5C,
     tick_size = 0x3F1A36E2EB1C432D, num_ticks = 2, side = 1, padding = [9, 9, 9, 9, 9]\<rparr>"

definition short_input :: "u8 list" where
  "short_input = [0, 0, 0x6F, 0, 0x1C, 0xD0, 0, 0,  0x3F, 0xF1, 0x5C, 0x28, 0xF5, 0xC2, 0x8F, 0x5C,
     0x3F, 0x1A, 0x36, 0xE2, 0xEB, 0x1C, 0x43, 0x2D,  0, 1,  0,  0, 0, 0, 0, 0]"

definition full_input :: "u8 list" where
  "full_input = short_input @ [0, 0, 0, 5]"

section \<open>The transport\<close>

text \<open>
  The socket is the environment of the code: a reliable, ordered byte stream that is read
  with \<^verbatim>\<open>recv\<close>, a blocking "read up to \<open>n\<close> bytes, possibly fewer". It is modelled as
  the list of what the next calls of \<^verbatim>\<open>recv\<close> find: \<open>Data bs\<close> is a segment that has
  arrived, of which \<^verbatim>\<open>recv\<close> copies as much as was asked for and leaves the rest for the
  next call; \<open>Failure\<close> is an error, for which \<^verbatim>\<open>recv\<close> returns -1. A stream that has
  ended, and an empty segment, make \<^verbatim>\<open>recv\<close> return 0. \<^verbatim>\<open>recv\<close> returns its
  \<^verbatim>\<open>ssize_t\<close> result, the buffer and the rest of the stream; \<open>p\<close> is the offset in the
  caller's buffer of the pointer it is given.
\<close>

datatype segment = Data "u8 list" | Failure

type_synonym socket = "segment list"

fun recv :: "socket \<Rightarrow> mem \<Rightarrow> nat \<Rightarrow> nat \<Rightarrow> int \<times> mem \<times> socket" where
  "recv [] buf p len = (0, buf, [])"
| "recv (Failure # s) buf p len = (- 1, buf, s)"
| "recv (Data bs # s) buf p len =
     (if length bs \<le> len then (int (length bs), memcpy buf p bs, s)
      else (int len, memcpy buf p (take len bs), Data (drop len bs) # s))"

text \<open>
  The bytes that a stream delivers before \<^verbatim>\<open>recv\<close> first returns 0 or -1.
\<close>

fun avail :: "socket \<Rightarrow> u8 list" where
  "avail [] = []"
| "avail (Failure # s) = []"
| "avail (Data bs # s) = (if bs = [] then [] else bs @ avail s)"

section \<open>Receiving\<close>

text \<open>
  The loop of \<^verbatim>\<open>mitch_recv_tcp\<close>. \<^verbatim>\<open>recv\<close> returns at most what it is asked for, so
  \<^verbatim>\<open>total_received\<close> never exceeds \<^verbatim>\<open>length\<close> and the \<^verbatim>\<open>size_t\<close> arithmetic of the
  loop is exact: both are natural numbers. \<open>len\<close> is the parameter \<^verbatim>\<open>length\<close>, \<open>p\<close>
  the offset of the parameter \<^verbatim>\<open>buffer\<close> in the caller's buffer.
\<close>

function mitch_recv_tcp_loop ::
  "socket \<Rightarrow> mem \<Rightarrow> nat \<Rightarrow> nat \<Rightarrow> nat \<Rightarrow> cint \<times> mem \<times> socket" where
  "mitch_recv_tcp_loop sock buffer p len total_received =
     (if total_received < len then
        (case recv sock buffer (p + total_received) (len - total_received) of
           (received, buffer', sock') \<Rightarrow>
             if received \<le> 0 then (- 1, buffer', sock')
             else mitch_recv_tcp_loop sock' buffer' p len (total_received + nat received))
      else (0, buffer, sock))"
  by pat_completeness auto
termination
  by (relation "measure (\<lambda>(sock, buffer, p, len, total_received). len - total_received)") auto

declare mitch_recv_tcp_loop.simps [simp del]

definition mitch_recv_tcp :: "socket \<Rightarrow> mem \<Rightarrow> nat \<Rightarrow> nat \<Rightarrow> cint \<times> mem \<times> socket" where
  "mitch_recv_tcp sock buffer p len = mitch_recv_tcp_loop sock buffer p len 0"

text \<open>
  \<^verbatim>\<open>mitch_recv_message\<close> returns its \<^verbatim>\<open>int\<close> result, the caller's buffer and the rest
  of the stream. \<^verbatim>\<open>body_size\<close>, \<^verbatim>\<open>volumes_size\<close> and \<^verbatim>\<open>buffer_size\<close> are
  \<^verbatim>\<open>size_t\<close> words, and \<^verbatim>\<open>return 8 + body_size\<close> converts a \<^verbatim>\<open>size_t\<close> to
  \<^verbatim>\<open>int\<close>.
\<close>

definition mitch_recv_message :: "socket \<Rightarrow> mem \<Rightarrow> size_t \<Rightarrow> cint \<times> mem \<times> socket" where
  "mitch_recv_message sock buffer buffer_size =
     (case mitch_recv_tcp sock buffer 0 8 of (rc, buffer, sock) \<Rightarrow>
      if rc \<noteq> 0 then (- 1, buffer, sock)
      else
        let header = fst (unpack_header buffer) in
        if message_type header = MITCH_MSG_TYPE_ORDER_BOOK then
          if count header \<noteq> 1 then (- 3, buffer, sock)
          else
            (case mitch_recv_tcp sock buffer 8 32 of (rc, buffer, sock) \<Rightarrow>
             if rc \<noteq> 0 then (- 1, buffer, sock)
             else
               let num_ticks = get_be16 buffer (8 + 24);
                   volumes_size = (ucast num_ticks :: size_t) * 4;
                   body_size = 32 + volumes_size
               in if 8 + body_size > buffer_size then (- 2, buffer, sock)
                  else if volumes_size > 0 then
                    (case mitch_recv_tcp sock buffer (8 + 32) (unat volumes_size) of
                       (rc, buffer, sock) \<Rightarrow>
                         if rc \<noteq> 0 then (- 1, buffer, sock)
                         else (ucast (8 + body_size), buffer, sock))
                  else (ucast (8 + body_size), buffer, sock))
        else
          let body_size = (ucast (count header) :: size_t) * 32
          in if 8 + body_size > buffer_size then (- 2, buffer, sock)
             else if body_size > 0 then
               (case mitch_recv_tcp sock buffer 8 (unat body_size) of
                  (rc, buffer, sock) \<Rightarrow>
                    if rc \<noteq> 0 then (- 1, buffer, sock)
                    else (ucast (8 + body_size), buffer, sock))
             else (ucast (8 + body_size), buffer, sock))"

text \<open>
  Streams: an order book header whose count is 2, followed by two more bytes; a trade
  message of 40 bytes that arrives in two segments; a trade header whose count is 0,
  followed by the start of the next message.
\<close>

definition count_two_stream :: socket where
  "count_two_stream = [Data [0x71, 0, 0], Data [0, 0, 0, 0, 2, 9, 9]]"

definition trade_stream :: socket where
  "trade_stream = [Data [0x74, 0, 0], Data ([0, 0, 0, 0, 1, 0, 0] @ replicate 30 7)]"

definition empty_trade_stream :: socket where
  "empty_trade_stream = [Data [0x74, 0, 0, 0, 0, 0, 0, 0, 0x74, 1]]"

section \<open>Messages on the wire\<close>

text \<open>
  The \<^verbatim>\<open>num_ticks\<close> field of an order book message on the wire: bytes 24 and 25 of the
  body, which are bytes 32 and 33 of the message.
\<close>

definition wire_num_ticks :: "u8 list \<Rightarrow> u16" where
  "wire_num_ticks msg = be_word 0 [msg ! 32, msg ! 33]"

text \<open>
  A stream that delivers an order book header and a prefix announcing 65535 ticks, and then
  ends.
\<close>

definition max_ticks_stream :: socket where
  "max_ticks_stream = [Data [0x71, 0, 0, 0, 0, 0, 0, 1],
     Data (replicate 24 0), Data ([0xFF, 0xFF, 0] @ replicate 5 0)]"

text \<open>
  A complete message: the header and the body that the header announces, which is one
  order book body of \<open>32 + 4 * num_ticks\<close> bytes under the tag \<open>'q'\<close> with count 1, and
  \<^verbatim>\<open>count\<close> bodies of 32 bytes under any other tag.
\<close>

definition complete_message :: "u8 list \<Rightarrow> bool" where
  "complete_message msg =
     (8 \<le> length msg \<and>
      (if msg ! 0 = MITCH_MSG_TYPE_ORDER_BOOK
       then msg ! 7 = 1 \<and> 40 \<le> length msg \<and>
            length msg = 8 + (32 + 4 * unat (wire_num_ticks msg))
       else length msg = 8 + 32 * unat (msg ! 7)))"

text \<open>
  The message of \<^verbatim>\<open>example_usage\<close> with a timestamp of zero, and the same bytes arriving
  in segments of 3, 10 and 27 bytes.
\<close>

definition trade_message :: "u8 list" where
  "trade_message = [0x74, 0, 0, 0, 0, 0, 0, 1,
     0, 0, 0x6F, 0, 0x1C, 0xD0, 0, 0,  0x3F, 0xF1, 0x5C, 0x28, 0xF5, 0xC2, 0x8F, 0x5C,
     0, 0x0F, 0x42, 0x40,  0, 0, 0x30, 0x39,  0,  0, 0, 0, 0, 0, 0, 0]"

definition trade_chunks :: "u8 list list" where
  "trade_chunks = [take 3 trade_message, take 10 (drop 3 trade_message), drop 13 trade_message]"

section \<open>Byte order lemmas\<close>

lemma be16_roundtrip: "be_word (0::u16) (be16_bytes x) = x"
proof (rule bit_word_eqI)
  fix n assume n: "n < LENGTH(16)"
  define r j where "r = n mod 8" and "j = n div 8"
  have r: "r < 8" by (simp add: r_def)
  have "n = 8 * j + r" by (simp add: r_def j_def)
  moreover from n have "j < 2" by (simp add: j_def)
  ultimately consider "n = r" | "n = 8 + r"
    by atomize_elim arith
  then show "bit (be_word (0::u16) (be16_bytes x)) n = bit x n"
    using r by cases (simp_all add: be16_bytes_def bit_simps)
qed

lemma be32_roundtrip: "be_word (0::u32) (be32_bytes x) = x"
proof (rule bit_word_eqI)
  fix n assume n: "n < LENGTH(32)"
  define r j where "r = n mod 8" and "j = n div 8"
  have r: "r < 8" by (simp add: r_def)
  have "n = 8 * j + r" by (simp add: r_def j_def)
  moreover from n have "j < 4" by (simp add: j_def)
  ultimately consider "n = r" | "n = 8 + r" | "n = 16 + r" | "n = 24 + r"
    by atomize_elim arith
  then show "bit (be_word (0::u32) (be32_bytes x)) n = bit x n"
    using r by cases (simp_all add: be32_bytes_def bit_simps)
qed

lemma be64_roundtrip: "be_word (0::u64) (be64_bytes x) = x"
proof (rule bit_word_eqI)
  fix n assume n: "n < LENGTH(64)"
  define r j where "r = n mod 8" and "j = n div 8"
  have r: "r < 8" by (simp add: r_def)
  have "n = 8 * j + r" by (simp add: r_def j_def)
  moreover from n have "j < 8" by (simp add: j_def)
  ultimately consider "n = r" | "n = 8 + r" | "n = 16 + r" | "n = 24 + r"
    | "n = 32 + r" | "n = 40 + r" | "n = 48 + r" | "n = 56 + r"
    by atomize_elim arith
  then show "bit (be_word (0::u64) (be64_bytes x)) n = bit x n"
    using r by cases (simp_all add: be64_bytes_def bit_simps)
qed

lemma length_be16_bytes [simp]: "length (be16_bytes x) = 2"
  by (simp add: be16_bytes_def)

lemma length_be32_bytes [simp]: "length (be32_bytes x) = 4"
  by (simp add: be32_bytes_def)

lemma length_be64_bytes [simp]: "length (be64_bytes x) = 8"
  by (simp add: be64_bytes_def)

section \<open>Memory lemmas\<close>

lemma length_load [simp]: "length (load m p n) = n"
  by (simp add: load_def)

lemma nth_load [simp]: "i < n \<Longrightarrow> load m p n ! i = m (p + i)"
  by (simp add: load_def)

lemma load_memcpy_same: "n = length bs \<Longrightarrow> load (memcpy m p bs) p n = bs"
  by (rule nth_equalityI) (simp_all add: memcpy_def)

lemma load_memcpy_other:
  "q + n \<le> p \<or> p + length bs \<le> q \<Longrightarrow> load (memcpy m p bs) q n = load m q n"
  by (rule nth_equalityI) (auto simp add: memcpy_def)

lemma load_upd_other: "k < q \<or> q + n \<le> k \<Longrightarrow> load (m(k := v)) q n = load m q n"
  by (rule nth_equalityI) auto

lemma memcpy_apply_other: "k < p \<or> p + length bs \<le> k \<Longrightarrow> memcpy m p bs k = m k"
  by (auto simp add: memcpy_def)

lemma memcpy_apply_in: "p \<le> k \<Longrightarrow> k < p + length bs \<Longrightarrow> memcpy m p bs k = bs ! (k - p)"
  by (simp add: memcpy_def)

lemma load_cong: "(\<And>k. p \<le> k \<Longrightarrow> k < p + n \<Longrightarrow> m1 k = m2 k) \<Longrightarrow> load m1 p n = load m2 p n"
  by (rule nth_equalityI) simp_all

lemma get_be64_memcpy_same [simp]: "get_be64 (memcpy m p (be64_bytes x)) p = x"
  by (simp add: get_be64_def load_memcpy_same be64_roundtrip)
lemma get_be32_memcpy_same [simp]: "get_be32 (memcpy m p (be32_bytes x)) p = x"
  by (simp add: get_be32_def load_memcpy_same be32_roundtrip)
lemma get_be16_memcpy_same [simp]: "get_be16 (memcpy m p (be16_bytes x)) p = x"
  by (simp add: get_be16_def load_memcpy_same be16_roundtrip)

lemma get_be64_memcpy_other [simp]:
  "q + 8 \<le> p \<or> p + length bs \<le> q \<Longrightarrow> get_be64 (memcpy m p bs) q = get_be64 m q"
  by (simp add: get_be64_def load_memcpy_other)
lemma get_be32_memcpy_other [simp]:
  "q + 4 \<le> p \<or> p + length bs \<le> q \<Longrightarrow> get_be32 (memcpy m p bs) q = get_be32 m q"
  by (simp add: get_be32_def load_memcpy_other)
lemma get_be16_memcpy_other [simp]:
  "q + 2 \<le> p \<or> p + length bs \<le> q \<Longrightarrow> get_be16 (memcpy m p bs) q = get_be16 m q"
  by (simp add: get_be16_def load_memcpy_other)
lemma get_be64_upd_other [simp]:
  "k < q \<or> q + 8 \<le> k \<Longrightarrow> get_be64 (m(k := v)) q = get_be64 m q"
  by (simp add: get_be64_def load_upd_other)
lemma get_be32_upd_other [simp]:
  "k < q \<or> q + 4 \<le> k \<Longrightarrow> get_be32 (m(k := v)) q = get_be32 m q"
  by (simp add: get_be32_def load_upd_other)
lemma get_be16_upd_other [simp]:
  "k < q \<or> q + 2 \<le> k \<Longrightarrow> get_be16 (m(k := v)) q = get_be16 m q"
  by (simp add: get_be16_def load_upd_other)

lemmas wire_defs = put_be64_def put_be32_def put_be16_def write_double_be_def
  read_double_be_def memset_def


section \<open>Reads depend on the bytes read only\<close>

lemma get_be32_cong:
  "(\<And>k. q \<le> k \<Longrightarrow> k < q + 4 \<Longrightarrow> m1 k = m2 k) \<Longrightarrow> get_be32 m1 q = get_be32 m2 q"
  unfolding get_be32_def by (rule arg_cong [where f = "be_word 0"]) (rule load_cong)


section \<open>The volume loops\<close>

lemma pack_volumes_step:
  "i < n \<Longrightarrow> pack_volumes i n volumes ptr b =
     pack_volumes (i + 1) n volumes (ptr + 4) (put_be32 b ptr (volumes i))"
  by (subst pack_volumes.simps) simp

lemma pack_volumes_done: "\<not> i < n \<Longrightarrow> pack_volumes i n volumes ptr b = b"
  by (subst pack_volumes.simps) simp

lemma unpack_volumes_step:
  "i < n \<Longrightarrow> unpack_volumes i n ptr buffer volumes =
     unpack_volumes (i + 1) n (ptr + 4) buffer (volumes(i := get_be32 buffer ptr))"
  by (subst unpack_volumes.simps) simp

lemma unpack_volumes_done: "\<not> i < n \<Longrightarrow> unpack_volumes i n ptr buffer volumes = volumes"
  by (subst unpack_volumes.simps) simp

lemma pack_volumes_below: "k < ptr \<Longrightarrow> pack_volumes i n volumes ptr b k = b k"
proof (induction i n volumes ptr b rule: pack_volumes.induct)
  case (1 i n volumes ptr b)
  show ?case
  proof (cases "i < n")
    case True
    from "1.prems" have "k < ptr + 4" by simp
    with True have "pack_volumes (i + 1) n volumes (ptr + 4) (put_be32 b ptr (volumes i)) k
        = put_be32 b ptr (volumes i) k"
      by (rule "1.IH")
    also from "1.prems" have "\<dots> = b k"
      by (simp add: put_be32_def memcpy_apply_other)
    finally show ?thesis
      by (subst pack_volumes_step [OF True])
  next
    case False
    then show ?thesis by (simp add: pack_volumes_done)
  qed
qed

lemma pack_volumes_above:
  "ptr + 4 * (n - i) \<le> k \<Longrightarrow> pack_volumes i n volumes ptr b k = b k"
proof (induction i n volumes ptr b rule: pack_volumes.induct)
  case (1 i n volumes ptr b)
  show ?case
  proof (cases "i < n")
    case True
    with "1.prems" have "ptr + 4 + 4 * (n - (i + 1)) \<le> k" by simp
    with True have "pack_volumes (i + 1) n volumes (ptr + 4) (put_be32 b ptr (volumes i)) k
        = put_be32 b ptr (volumes i) k"
      by (rule "1.IH")
    also from True "1.prems" have "\<dots> = b k"
      by (simp add: put_be32_def memcpy_apply_other)
    finally show ?thesis
      by (subst pack_volumes_step [OF True])
  next
    case False
    then show ?thesis by (simp add: pack_volumes_done)
  qed
qed

lemma pack_volumes_get:
  "j < n - i \<Longrightarrow> get_be32 (pack_volumes i n volumes ptr b) (ptr + 4 * j) = volumes (i + j)"
proof (induction i n volumes ptr b arbitrary: j rule: pack_volumes.induct)
  case (1 i n volumes ptr b)
  from "1.prems" have lt: "i < n" by simp
  show ?case
  proof (cases j)
    case 0
    have "get_be32 (pack_volumes (i + 1) n volumes (ptr + 4) (put_be32 b ptr (volumes i))) ptr
        = get_be32 (put_be32 b ptr (volumes i)) ptr"
      by (rule get_be32_cong) (simp add: pack_volumes_below)
    also have "\<dots> = volumes i"
      by (simp add: put_be32_def)
    finally show ?thesis
      by (subst pack_volumes_step [OF lt]) (simp add: 0)
  next
    case (Suc j')
    with "1.prems" have "j' < n - (i + 1)" by simp
    with lt have "get_be32 (pack_volumes (i + 1) n volumes (ptr + 4) (put_be32 b ptr (volumes i)))
        (ptr + 4 + 4 * j') = volumes (i + 1 + j')"
      by (rule "1.IH")
    then show ?thesis
      by (subst pack_volumes_step [OF lt]) (simp add: Suc add.assoc)
  qed
qed

lemma unpack_volumes_apply:
  "unpack_volumes i n ptr buffer volumes k =
     (if i \<le> k \<and> k < n then get_be32 buffer (ptr + 4 * (k - i)) else volumes k)"
proof (induction i n ptr buffer volumes rule: unpack_volumes.induct)
  case (1 i n ptr buffer volumes)
  show ?case
  proof (cases "i < n")
    case True
    have ih: "unpack_volumes (i + 1) n (ptr + 4) buffer (volumes(i := get_be32 buffer ptr)) k =
      (if i + 1 \<le> k \<and> k < n then get_be32 buffer (ptr + 4 + 4 * (k - (i + 1)))
       else (volumes(i := get_be32 buffer ptr)) k)"
      using True by (rule "1.IH")
    have "ptr + 4 + 4 * (k - (i + 1)) = ptr + 4 * (k - i)" if "i + 1 \<le> k"
      using that by simp
    then have "unpack_volumes (i + 1) n (ptr + 4) buffer (volumes(i := get_be32 buffer ptr)) k =
      (if i \<le> k \<and> k < n then get_be32 buffer (ptr + 4 * (k - i)) else volumes k)"
      using True unfolding ih by (auto simp add: add.assoc)
    then show ?thesis
      by (subst unpack_volumes_step [OF True])
  next
    case False
    then show ?thesis by (auto simp add: unpack_volumes_done)
  qed
qed


section \<open>Round trips of the fixed bodies\<close>

lemma unpack_pack_trade:
  "unpack_trade_body (fst (pack_trade_body t buffer)) = (t\<lparr>Trade.padding := replicate 7 0\<rparr>, 32)"
  by (simp add: unpack_trade_body_def pack_trade_body_def Let_def wire_defs
     memcpy_apply_other load_memcpy_same)

lemma unpack_pack_order:
  "length (expiry r) = 6 \<Longrightarrow> unpack_order_body (fst (pack_order_body r buffer)) = (r, 32)"
  by (simp add: unpack_order_body_def pack_order_body_def Let_def wire_defs
     memcpy_apply_other load_memcpy_same load_upd_other)

lemma unpack_pack_ticker:
  "unpack_ticker_body (fst (pack_ticker_body r buffer)) = (r, 32)"
  by (simp add: unpack_ticker_body_def pack_ticker_body_def Let_def wire_defs)

text \<open>
  Claim C4. For every Trade, Order and Tick record, unpacking the 32 bytes that the matching
  packing function wrote gives the record back: every member of an Order (whose
  \<^verbatim>\<open>expiry\<close> array has its 6 bytes) and of a Tick, and every member of a Trade but the
  padding, which comes back as the seven zero bytes on the wire. A double is its 64-bit
  pattern, so the pattern of \<^verbatim>\<open>price\<close>, \<^verbatim>\<open>bid_price\<close> and \<^verbatim>\<open>ask_price\<close> comes back
  bit for bit, NaN and infinity included. Both directions return 32.
\<close>

theorem fixed_body_roundtrip:
  assumes "valid_Order r"
  shows "unpack_trade_body (fst (pack_trade_body t buffer)) =
           (t\<lparr>Trade.padding := replicate 7 0\<rparr>, 32)
       \<and> snd (pack_trade_body t buffer) = 32
       \<and> unpack_order_body (fst (pack_order_body r buffer)) = (r, 32)
       \<and> snd (pack_order_body r buffer) = 32
       \<and> unpack_ticker_body (fst (pack_ticker_body k buffer)) = (k, 32)
       \<and> snd (pack_ticker_body k buffer) = 32"
proof -
  from assms have "length (expiry r) = 6"
    by (simp add: valid_Order_def)
  then have "unpack_order_body (fst (pack_order_body r buffer)) = (r, 32)"
    by (rule unpack_pack_order)
  moreover have "snd (pack_trade_body t buffer) = 32" "snd (pack_order_body r buffer) = 32"
    "snd (pack_ticker_body k buffer) = 32"
    by (simp_all add: pack_trade_body_def pack_order_body_def pack_ticker_body_def Let_def)
  ultimately show ?thesis
    by (simp add: unpack_pack_trade unpack_pack_ticker)
qed

theorem fixed_body_roundtrip_witness:
  "valid_Order example_order
   \<and> unpack_trade_body (fst (pack_trade_body example_trade zero_mem)) =
       (example_trade\<lparr>Trade.padding := replicate 7 0\<rparr>, 32)
   \<and> unpack_order_body (fst (pack_order_body example_order zero_mem)) = (example_order, 32)
   \<and> Order.price (fst (unpack_order_body (fst (pack_order_body example_order zero_mem)))) =
       0x7FF8000000000001
   \<and> unpack_ticker_body (fst (pack_ticker_body example_tick zero_mem)) = (example_tick, 32)"
proof -
  have v: "valid_Order example_order"
    by (simp add: valid_Order_def example_order_def)
  show ?thesis
    using v fixed_body_roundtrip [OF v, of example_trade zero_mem example_tick]
    by (simp add: example_order_def)
qed

section \<open>Padding bytes on the wire\<close>

lemma pack_trade_body_padding:
  "25 \<le> i \<Longrightarrow> i < 32 \<Longrightarrow> fst (pack_trade_body t buffer) i = 0"
  by (simp add: pack_trade_body_def Let_def memset_def memcpy_def)

lemma pack_order_book_body_padding:
  "27 \<le> i \<Longrightarrow> i < 32 \<Longrightarrow> fst (pack_order_book_body b volumes buffer) i = 0"
  by (simp add: pack_order_book_body_def Let_def memset_def pack_volumes_below memcpy_def)

lemma pack_order_body_padding: "fst (pack_order_body r buffer) 31 = Order.padding r"
  by (simp add: pack_order_body_def Let_def)

text \<open>
  Claim C8. \<^verbatim>\<open>pack_trade_body\<close> and \<^verbatim>\<open>pack_order_book_body\<close> clear their padding bytes
  with \<^verbatim>\<open>memset\<close>; \<^verbatim>\<open>pack_order_body\<close> ends with \<^verbatim>\<open>*ptr = order->padding\<close>, so the
  reserved byte at offset 31 of an order body is the record's padding member. For the
  example order, whose padding is \<open>0xFF\<close>, the byte on the wire is \<open>0xFF\<close>.
\<close>

theorem pack_order_body_padding_not_zeroed:
  "fst (pack_order_body example_order zero_mem) 31 = 0xFF"
  by (simp add: pack_order_body_def Let_def example_order_def)

section \<open>Integer conversions\<close>

lemma unat_u16_bound: "unat (nt :: u16) < 65536"
  using unsigned_less [of nt, where 'a = nat] by simp

lemma unat_u8_bound: "unat (c :: u8) < 256"
  using unsigned_less [of c, where 'a = nat] by simp

lemma sint_small:
  assumes "unat (x :: cint) < 2 ^ 31"
  shows "sint x = int (unat x)"
proof -
  have "0 \<le> uint x"
    by (rule unsigned_greater_eq)
  then have nonneg: "- 2147483648 \<le> uint x"
    by linarith
  have eq: "uint x = int (unat x)"
    by (rule uint_nat)
  from assms have "unat x < 2147483648"
    by simp
  with eq have less: "uint x < 2147483648"
    by linarith
  have "sint x = signed_take_bit (LENGTH(32) - Suc 0) (uint x)"
    by (rule sint_uint)
  also have "\<dots> = uint x"
    using nonneg less by (intro signed_take_bit_int_eq_self) simp_all
  also have "\<dots> = int (unat x)"
    by (rule uint_nat)
  finally show ?thesis .
qed

lemma unat_int_body_len: "unat (32 + ucast (nt :: u16) * 4 :: cint) = 32 + 4 * unat nt"
proof -
  have "(32 + ucast nt * 4 :: cint) = of_nat (32 + 4 * unat nt)"
    by simp
  then show ?thesis
    using unat_u16_bound [of nt] by (simp only: unat_of_nat) simp
qed

lemma sint_body_len: "sint (32 + ucast (nt :: u16) * 4 :: cint) = 32 + 4 * int (unat nt)"
proof -
  have "unat (32 + ucast nt * 4 :: cint) < 2 ^ 31"
    using unat_u16_bound [of nt] by (simp add: unat_int_body_len)
  then have "sint (32 + ucast nt * 4 :: cint) = int (unat (32 + ucast nt * 4 :: cint))"
    by (rule sint_small)
  then show ?thesis
    by (simp add: unat_int_body_len)
qed

lemma unat_size_volumes: "unat (ucast (nt :: u16) * 4 :: size_t) = 4 * unat nt"
proof -
  have "(ucast nt * 4 :: size_t) = of_nat (4 * unat nt)"
    by simp
  then show ?thesis
    using unat_u16_bound [of nt] by (simp only: unat_of_nat) simp
qed

lemma unat_size_total_ob:
  "unat (8 + (32 + ucast (nt :: u16) * 4) :: size_t) = 8 + (32 + 4 * unat nt)"
proof -
  have "(8 + (32 + ucast nt * 4) :: size_t) = of_nat (8 + (32 + 4 * unat nt))"
    by simp
  then show ?thesis
    using unat_u16_bound [of nt] by (simp only: unat_of_nat) simp
qed

lemma unat_size_body_fixed: "unat (ucast (c :: u8) * 32 :: size_t) = 32 * unat c"
proof -
  have "(ucast c * 32 :: size_t) = of_nat (32 * unat c)"
    by simp
  then show ?thesis
    using unat_u8_bound [of c] by (simp only: unat_of_nat) simp
qed

lemma unat_size_total_fixed:
  "unat (8 + ucast (c :: u8) * 32 :: size_t) = 8 + 32 * unat c"
proof -
  have "(8 + ucast c * 32 :: size_t) = of_nat (8 + 32 * unat c)"
    by simp
  then show ?thesis
    using unat_u8_bound [of c] by (simp only: unat_of_nat) simp
qed

lemma sint_ucast_size:
  assumes "unat (w :: size_t) < 2 ^ 31"
  shows "sint (ucast w :: cint) = int (unat w)"
proof -
  have "unat (ucast w :: cint) = take_bit LENGTH(32) (unat w)"
    by (rule unsigned_ucast_eq)
  also have "\<dots> = unat w"
    using assms by (intro take_bit_nat_eq_self) simp
  finally have u: "unat (ucast w :: cint) = unat w" .
  with assms have "unat (ucast w :: cint) < 2 ^ 31"
    by (simp only:)
  then have "sint (ucast w :: cint) = int (unat (ucast w :: cint))"
    by (rule sint_small)
  then show ?thesis
    by (simp only: u)
qed

section \<open>The order book body\<close>

lemma load_pack_volumes_below:
  "q + n \<le> ptr \<Longrightarrow> load (pack_volumes i k volumes ptr b) q n = load b q n"
  by (rule load_cong) (simp add: pack_volumes_below)

lemma get_be64_pack_volumes_below [simp]:
  "q + 8 \<le> ptr \<Longrightarrow> get_be64 (pack_volumes i k volumes ptr b) q = get_be64 b q"
  by (simp add: get_be64_def load_pack_volumes_below)

lemma get_be16_pack_volumes_below [simp]:
  "q + 2 \<le> ptr \<Longrightarrow> get_be16 (pack_volumes i k volumes ptr b) q = get_be16 b q"
  by (simp add: get_be16_def load_pack_volumes_below)

lemma load2: "load m p 2 = [m p, m (p + 1)]"
  by (simp add: load_def eval_nat_numeral)

lemma load4: "load m p 4 = [m p, m (p + 1), m (p + 2), m (p + 3)]"
  by (simp add: load_def eval_nat_numeral)

lemma unpack_pack_order_book_fields:
  "fst (unpack_order_book_body (fst (pack_order_book_body b vols buffer)) volumes) =
     b\<lparr>OrderBook.padding := replicate 5 0\<rparr>"
  by (simp add: unpack_order_book_body_def pack_order_book_body_def Let_def wire_defs
      pack_volumes_below load_pack_volumes_below load_memcpy_same memcpy_apply_other)

lemma pack_order_book_body_volumes:
  "k < unat (num_ticks b) \<Longrightarrow>
     get_be32 (fst (pack_order_book_body b vols buffer)) (32 + 4 * k) = vols k"
  using pack_volumes_get [of k "unat (num_ticks b)" 0 vols 32]
  by (simp add: pack_order_book_body_def Let_def)

lemma unpack_order_book_body_num_ticks:
  "num_ticks (fst (unpack_order_book_body buffer volumes)) = get_be16 buffer 24"
  by (simp add: unpack_order_book_body_def Let_def)

lemma unpack_order_book_body_volumes:
  "fst (snd (unpack_order_book_body buffer volumes)) k =
     (if k < unat (get_be16 buffer 24) then get_be32 buffer (32 + 4 * k) else volumes k)"
  by (simp add: unpack_order_book_body_def Let_def unpack_volumes_apply)

lemma unpack_order_book_body_result:
  "snd (snd (unpack_order_book_body buffer volumes)) = 32 + ucast (get_be16 buffer 24) * 4"
  by (simp add: unpack_order_book_body_def Let_def)

lemma pack_order_book_body_num_ticks:
  "get_be16 (fst (pack_order_book_body b vols buffer)) 24 = num_ticks b"
  by (simp add: pack_order_book_body_def Let_def wire_defs )

text \<open>
  Claim C3. For every OrderBook record \<open>b\<close> and every volume array \<open>v\<close> of
  \<^verbatim>\<open>b.num_ticks\<close> entries (0, 1, 500 and 65535 among them), unpacking the bytes that
  \<^verbatim>\<open>pack_order_book_body\<close> wrote gives back every member of \<open>b\<close> but the padding,
  which comes back as the five zero bytes on the wire, and stores \<open>v\<close> into the first
  \<^verbatim>\<open>num_ticks\<close> cells of the volume array, leaving the cells after them alone. Both
  functions return \<open>32 + 4 * num_ticks\<close>.
\<close>

theorem order_book_roundtrip:
  assumes "length v = unat (num_ticks b)"
  shows "case pack_order_book_body b (array_of v fill) buffer of (buf, plen) \<Rightarrow>
          (case unpack_order_book_body buf volumes of (b', vols', ulen) \<Rightarrow>
            b' = b\<lparr>OrderBook.padding := replicate 5 0\<rparr> \<and> map vols' [0..<length v] = v \<and>
            (\<forall>i. vols' i = (if i < length v then v ! i else volumes i)) \<and> plen = ulen \<and>
            sint plen = 32 + 4 * int (length v))"
proof -
  let ?n = "unat (num_ticks b)"
  let ?buf = "fst (pack_order_book_body b (array_of v fill) buffer)"
  let ?u = "unpack_order_book_body ?buf volumes"
  have nt: "get_be16 ?buf 24 = num_ticks b"
    by (rule pack_order_book_body_num_ticks)
  have plen: "snd (pack_order_book_body b (array_of v fill) buffer) = 32 + ucast (num_ticks b) * 4"
    by (simp add: pack_order_book_body_def Let_def)
  have "fst (snd ?u) k = v ! k" if "k < length v" for k
    using that assms
    by (simp add: unpack_order_book_body_volumes nt pack_order_book_body_volumes array_of_def)
  then have "map (fst (snd ?u)) [0..<length v] = v"
    by (intro nth_equalityI) simp_all
  moreover have "\<forall>i. fst (snd ?u) i = (if i < length v then v ! i else volumes i)"
    using assms
    by (simp add: unpack_order_book_body_volumes nt pack_order_book_body_volumes array_of_def)
  moreover have "sint (snd (pack_order_book_body b (array_of v fill) buffer)) = 32 + 4 * int (length v)"
    by (simp add: plen sint_body_len assms)
  moreover have "snd (snd ?u) = snd (pack_order_book_body b (array_of v fill) buffer)"
    by (simp add: unpack_order_book_body_result nt plen)
  moreover have "fst ?u = b\<lparr>OrderBook.padding := replicate 5 0\<rparr>"
    by (rule unpack_pack_order_book_fields)
  ultimately show ?thesis
    by (simp add: case_prod_unfold)
qed

theorem order_book_roundtrip_witness:
  "length [1, 0xFFFFFFFF :: u32] = unat (num_ticks example_book) \<and>
   (case pack_order_book_body example_book (array_of [1, 0xFFFFFFFF] 0) zero_mem of (buf, plen) \<Rightarrow>
      (case unpack_order_book_body buf (array_of [] 7) of (b', vols', ulen) \<Rightarrow>
         b' = example_book\<lparr>OrderBook.padding := replicate 5 0\<rparr> \<and>
         map vols' [0..<length [1, 0xFFFFFFFF :: u32]] = [1, 0xFFFFFFFF] \<and>
         plen = ulen \<and> sint plen = 32 + 4 * int (length [1, 0xFFFFFFFF :: u32])))"
proof -
  have l: "length [1, 0xFFFFFFFF :: u32] = unat (num_ticks example_book)"
    by (simp add: example_book_def)
  note c = order_book_roundtrip [OF l, where fill = 0 and buffer = zero_mem
      and volumes = "array_of [] 7"]
  from c have "case pack_order_book_body example_book (array_of [1, 0xFFFFFFFF] 0) zero_mem of
      (buf, plen) \<Rightarrow>
      (case unpack_order_book_body buf (array_of [] 7) of (b', vols', ulen) \<Rightarrow>
         b' = example_book\<lparr>OrderBook.padding := replicate 5 0\<rparr> \<and>
         map vols' [0..<length [1, 0xFFFFFFFF :: u32]] = [1, 0xFFFFFFFF] \<and>
         plen = ulen \<and> sint plen = 32 + 4 * int (length [1, 0xFFFFFFFF :: u32]))"
    by (auto simp add: case_prod_unfold)
  with l show ?thesis
    by (rule conjI)
qed

section \<open>Unpacking an order book from a short input\<close>

lemma get_be64_cong:
  "(\<And>k. q \<le> k \<Longrightarrow> k < q + 8 \<Longrightarrow> m1 k = m2 k) \<Longrightarrow> get_be64 m1 q = get_be64 m2 q"
  unfolding get_be64_def by (rule arg_cong [where f = "be_word 0"]) (rule load_cong)

lemma get_be16_cong:
  "(\<And>k. q \<le> k \<Longrightarrow> k < q + 2 \<Longrightarrow> m1 k = m2 k) \<Longrightarrow> get_be16 m1 q = get_be16 m2 q"
  unfolding get_be16_def by (rule arg_cong [where f = "be_word 0"]) (rule load_cong)

lemma unpack_volumes_cong:
  assumes "\<And>k. ptr \<le> k \<Longrightarrow> k < ptr + 4 * n \<Longrightarrow> m1 k = m2 k"
  shows "unpack_volumes 0 n ptr m1 volumes = unpack_volumes 0 n ptr m2 volumes"
proof
  fix i
  have "get_be32 m1 (ptr + 4 * i) = get_be32 m2 (ptr + 4 * i)" if "i < n"
    using that by (intro get_be32_cong assms) simp_all
  then show "unpack_volumes 0 n ptr m1 volumes i = unpack_volumes 0 n ptr m2 volumes i"
    by (simp add: unpack_volumes_apply)
qed

text \<open>
  Claim C1, as the code has it. \<^verbatim>\<open>unpack_order_book_body\<close> is given a pointer and no
  length, and checks nothing: it reads \<^verbatim>\<open>num_ticks\<close> from bytes 24 and 25, returns
  \<open>32 + 4 * num_ticks\<close>, never an error, and stores \<^verbatim>\<open>num_ticks\<close> volumes, volume
  \<open>i\<close> being the big-endian value of the four bytes at offset \<open>32 + 4 * i\<close>. Its
  result is decided by the first \<open>32 + 4 * num_ticks\<close> bytes at the pointer: two memories
  that agree on them give the same result. So it stays within its input exactly when the
  caller supplies that many bytes.
\<close>

theorem unpack_order_book_body_unchecked:
  assumes "load m1 0 (32 + 4 * unat (get_be16 m1 24)) = load m2 0 (32 + 4 * unat (get_be16 m1 24))"
  shows "unpack_order_book_body m1 volumes = unpack_order_book_body m2 volumes
       \<and> num_ticks (fst (unpack_order_book_body m1 volumes)) = get_be16 m1 24
       \<and> sint (snd (snd (unpack_order_book_body m1 volumes))) =
           32 + 4 * int (unat (get_be16 m1 24))
       \<and> (\<forall>i. fst (snd (unpack_order_book_body m1 volumes)) i =
             (if i < unat (get_be16 m1 24) then get_be32 m1 (32 + 4 * i) else volumes i))"
proof -
  let ?n = "unat (get_be16 m1 24)"
  have eq: "m1 k = m2 k" if "k < 32 + 4 * ?n" for k
  proof -
    from that have "load m1 0 (32 + 4 * ?n) ! k = m1 (0 + k)" "load m2 0 (32 + 4 * ?n) ! k = m2 (0 + k)"
      by (rule nth_load)+
    with assms show ?thesis by simp
  qed
  have nt: "get_be16 m1 24 = get_be16 m2 24"
    by (rule get_be16_cong) (simp add: eq)
  have f: "get_be64 m1 0 = get_be64 m2 0" "get_be64 m1 8 = get_be64 m2 8"
    "get_be64 m1 16 = get_be64 m2 16"
    by (rule get_be64_cong, simp add: eq)+
  have s: "m1 26 = m2 26"
    by (simp add: eq)
  have p: "load m1 27 5 = load m2 27 5"
    by (rule load_cong) (simp add: eq)
  have v: "unpack_volumes 0 ?n 32 m1 volumes = unpack_volumes 0 ?n 32 m2 volumes"
    by (rule unpack_volumes_cong) (simp add: eq)
  have e: "unpack_order_book_body m1 volumes = unpack_order_book_body m2 volumes"
    using v by (simp add: unpack_order_book_body_def Let_def read_double_be_def
        nt [symmetric] f [symmetric] s [symmetric] p [symmetric])
  have r: "num_ticks (fst (unpack_order_book_body m1 volumes)) = get_be16 m1 24
       \<and> sint (snd (snd (unpack_order_book_body m1 volumes))) =
           32 + 4 * int (unat (get_be16 m1 24))
       \<and> (\<forall>i. fst (snd (unpack_order_book_body m1 volumes)) i =
             (if i < unat (get_be16 m1 24) then get_be32 m1 (32 + 4 * i) else volumes i))"
    by (simp add: unpack_order_book_body_num_ticks unpack_order_book_body_volumes
        unpack_order_book_body_result sint_body_len)
  from e r show ?thesis
    by (rule conjI)
qed

lemma num_ticks_full_input: "get_be16 (array_of full_input c) 24 = 1"
  by (simp add: get_be16_def load2 array_of_def full_input_def short_input_def)

theorem unpack_order_book_body_unchecked_witness:
  "load (array_of full_input 0xAA) 0 (32 + 4 * unat (get_be16 (array_of full_input 0xAA) 24)) =
     load (array_of full_input 0xBB) 0 (32 + 4 * unat (get_be16 (array_of full_input 0xAA) 24))
   \<and> unpack_order_book_body (array_of full_input 0xAA) (array_of [] 0) =
       unpack_order_book_body (array_of full_input 0xBB) (array_of [] 0)
   \<and> sint (snd (snd (unpack_order_book_body (array_of full_input 0xAA) (array_of [] 0)))) = 36"
proof -
  have "array_of full_input 0xAA k = array_of full_input 0xBB k" if "k < 36" for k
    using that by (simp add: array_of_def full_input_def short_input_def)
  then have "load (array_of full_input 0xAA) 0 36 = load (array_of full_input 0xBB) 0 36"
    by (intro load_cong) simp
  then have h: "load (array_of full_input 0xAA) 0
        (32 + 4 * unat (get_be16 (array_of full_input 0xAA) 24)) =
      load (array_of full_input 0xBB) 0 (32 + 4 * unat (get_be16 (array_of full_input 0xAA) 24))"
    by (simp add: num_ticks_full_input)
  note c = unpack_order_book_body_unchecked [OF h, where volumes = "array_of [] 0"]
  from c have e: "unpack_order_book_body (array_of full_input 0xAA) (array_of [] 0) =
       unpack_order_book_body (array_of full_input 0xBB) (array_of [] 0)"
    by (rule conjunct1)
  from c have "sint (snd (snd (unpack_order_book_body (array_of full_input 0xAA) (array_of [] 0)))) =
      32 + 4 * int (unat (get_be16 (array_of full_input 0xAA) 24))"
    by (rule conjunct1 [OF conjunct2 [OF conjunct2]])
  then have r: "sint (snd (snd (unpack_order_book_body (array_of full_input 0xAA) (array_of [] 0)))) = 36"
    by (simp add: num_ticks_full_input)
  from h e r show ?thesis
    by (intro conjI)
qed

text \<open>
  Claim C1, as stated, fails. \<open>short_input\<close> is a 32-byte order book prefix that
  announces one tick, so that 36 bytes are required. Unpacking it returns 36, which is no
  error, and the volume it stores is made of the four bytes that follow the input in
  memory: \<open>0xAA\<close> bytes give \<open>0xAAAAAAAA\<close>, \<open>0xBB\<close> bytes give \<open>0xBBBBBBBB\<close>.
\<close>

theorem unpack_order_book_body_short_input:
  "length short_input = 32
   \<and> unat (num_ticks (fst (unpack_order_book_body (array_of short_input 0xAA) (array_of [] 0)))) = 1
   \<and> sint (snd (snd (unpack_order_book_body (array_of short_input 0xAA) (array_of [] 0)))) = 36
   \<and> fst (snd (unpack_order_book_body (array_of short_input 0xAA) (array_of [] 0))) 0 = 0xAAAAAAAA
   \<and> fst (snd (unpack_order_book_body (array_of short_input 0xBB) (array_of [] 0))) 0 = 0xBBBBBBBB"
proof -
  have nt: "get_be16 (array_of short_input c) 24 = 1" for c
    by (simp add: get_be16_def load2 array_of_def short_input_def)
  have v: "get_be32 (array_of short_input 0xAA) 32 = 0xAAAAAAAA"
    "get_be32 (array_of short_input 0xBB) 32 = 0xBBBBBBBB"
    by (simp_all add: get_be32_def load4 array_of_def short_input_def)
  have l: "length short_input = 32"
    by (simp add: short_input_def)
  show ?thesis
    using v by (simp add: l unpack_order_book_body_num_ticks unpack_order_book_body_volumes
        unpack_order_book_body_result sint_body_len nt)
qed

section \<open>The receive loop\<close>

lemma loop_done:
  "\<not> got < n \<Longrightarrow> mitch_recv_tcp_loop s buf p n got = (0, buf, s)"
  by (subst mitch_recv_tcp_loop.simps) simp

lemma loop_fail:
  "got < n \<Longrightarrow> recv s buf (p + got) (n - got) = (r, buf', s') \<Longrightarrow> r \<le> 0 \<Longrightarrow>
     mitch_recv_tcp_loop s buf p n got = (- 1, buf', s')"
  by (subst mitch_recv_tcp_loop.simps) simp

lemma loop_step:
  "got < n \<Longrightarrow> recv s buf (p + got) (n - got) = (r, buf', s') \<Longrightarrow> 0 < r \<Longrightarrow>
     mitch_recv_tcp_loop s buf p n got = mitch_recv_tcp_loop s' buf' p n (got + nat r)"
  by (subst mitch_recv_tcp_loop.simps) simp

lemma memcpy_Nil [simp]: "memcpy m p [] = m"
  by (rule ext) (auto simp add: memcpy_def)

lemma memcpy_append: "memcpy (memcpy m p xs) (p + length xs) ys = memcpy m p (xs @ ys)"
  by (rule ext) (auto simp add: memcpy_def nth_append)



lemma recv_tcp_loop_ok:
  "got \<le> n \<Longrightarrow> n - got \<le> length (avail s) \<Longrightarrow>
   (case mitch_recv_tcp_loop s buf p n got of (rc, buf', s') \<Rightarrow>
      rc = 0 \<and> buf' = memcpy buf (p + got) (take (n - got) (avail s)) \<and>
      avail s' = drop (n - got) (avail s))"
proof (induction s arbitrary: buf got)
  case Nil
  then show ?case by (simp add: loop_done)
next
  case (Cons e s)
  show ?case
  proof (cases "got < n")
    case False
    then show ?thesis by (simp add: loop_done)
  next
    case True
    with Cons.prems obtain bs where e: "e = Data bs" and bs: "bs \<noteq> []"
      by (cases e) (auto split: if_splits)
    show ?thesis
    proof (cases "length bs \<le> n - got")
      case le: True
      from bs have pos: "0 < int (length bs)" by simp
      have r: "recv (e # s) buf (p + got) (n - got) =
          (int (length bs), memcpy buf (p + got) bs, s)"
        using le by (simp add: e)
      have step: "mitch_recv_tcp_loop (e # s) buf p n got =
          mitch_recv_tcp_loop s (memcpy buf (p + got) bs) p n (got + length bs)"
        using loop_step [OF True r pos] by simp
      have "got + length bs \<le> n" using le True by simp
      moreover have "n - (got + length bs) \<le> length (avail s)"
        using Cons.prems(2) bs by (simp add: e)
      ultimately have ih: "case mitch_recv_tcp_loop s (memcpy buf (p + got) bs) p n (got + length bs) of
          (rc, buf', s') \<Rightarrow> rc = 0 \<and>
            buf' = memcpy (memcpy buf (p + got) bs) (p + (got + length bs))
                     (take (n - (got + length bs)) (avail s)) \<and>
            avail s' = drop (n - (got + length bs)) (avail s)"
        by (rule Cons.IH)
      have m: "memcpy (memcpy buf (p + got) bs) (p + (got + length bs)) xs =
          memcpy buf (p + got) (bs @ xs)" for xs
        using memcpy_append [of buf "p + got" bs xs] by (simp add: add.assoc)
      from ih show ?thesis
        unfolding step using le bs by (simp add: e m case_prod_unfold)
    next
      case gt: False
      with True have pos: "0 < int (n - got)" by simp
      have r: "recv (e # s) buf (p + got) (n - got) =
          (int (n - got), memcpy buf (p + got) (take (n - got) bs),
           Data (drop (n - got) bs) # s)"
        using gt by (simp add: e)
      have "mitch_recv_tcp_loop (e # s) buf p n got =
          mitch_recv_tcp_loop (Data (drop (n - got) bs) # s)
            (memcpy buf (p + got) (take (n - got) bs)) p n (got + (n - got))"
        using loop_step [OF True r pos] by simp
      also have "\<dots> = (0, memcpy buf (p + got) (take (n - got) bs),
          Data (drop (n - got) bs) # s)"
        using True by (intro loop_done) simp
      finally show ?thesis
        using gt bs by (simp add: e)
    qed
  qed
qed

lemma recv_tcp_loop_fail:
  "length (avail s) < n - got \<Longrightarrow> fst (mitch_recv_tcp_loop s buf p n got) = - 1"
proof (induction s arbitrary: buf got)
  case Nil
  then have lt: "got < n" by simp
  have "recv [] buf (p + got) (n - got) = (0, buf, [])" by simp
  from loop_fail [OF lt this] show ?case by simp
next
  case (Cons e s)
  then have lt: "got < n" by simp
  show ?case
  proof (cases e)
    case Failure
    then have "recv (e # s) buf (p + got) (n - got) = (- 1, buf, s)" by simp
    from loop_fail [OF lt this] show ?thesis by simp
  next
    case (Data bs)
    show ?thesis
    proof (cases "bs = []")
      case True
      then have "recv (e # s) buf (p + got) (n - got) = (0, buf, s)"
        by (simp add: Data)
      from loop_fail [OF lt this] show ?thesis by simp
    next
      case False
      with Cons.prems have le: "length bs < n - got" and
        rest: "length (avail s) < n - (got + length bs)"
        by (simp_all add: Data)
      from False have pos: "0 < int (length bs)" by simp
      have r: "recv (e # s) buf (p + got) (n - got) =
          (int (length bs), memcpy buf (p + got) bs, s)"
        using le by (simp add: Data)
      have "mitch_recv_tcp_loop (e # s) buf p n got =
          mitch_recv_tcp_loop s (memcpy buf (p + got) bs) p n (got + length bs)"
        using loop_step [OF lt r pos] by simp
      with Cons.IH [OF rest] show ?thesis by simp
    qed
  qed
qed

lemma recv_tcp_loop_frame:
  "k < p + got \<or> p + n \<le> k \<Longrightarrow> fst (snd (mitch_recv_tcp_loop s buf p n got)) k = buf k"
proof (induction s arbitrary: buf got)
  case Nil
  show ?case
  proof (cases "got < n")
    case True
    have "recv [] buf (p + got) (n - got) = (0, buf, [])" by simp
    from loop_fail [OF True this] show ?thesis by simp
  next
    case False
    then show ?thesis by (simp add: loop_done)
  qed
next
  case (Cons e s)
  show ?case
  proof (cases "got < n")
    case False
    then show ?thesis by (simp add: loop_done)
  next
    case lt: True
    show ?thesis
    proof (cases e)
      case Failure
      then have "recv (e # s) buf (p + got) (n - got) = (- 1, buf, s)" by simp
      from loop_fail [OF lt this] show ?thesis by simp
    next
      case (Data bs)
      show ?thesis
      proof (cases "bs = []")
        case True
        then have "recv (e # s) buf (p + got) (n - got) = (0, buf, s)"
          by (simp add: Data)
        from loop_fail [OF lt this] show ?thesis by simp
      next
        case ne: False
        show ?thesis
        proof (cases "length bs \<le> n - got")
          case le: True
          from ne have pos: "0 < int (length bs)" by simp
          have r: "recv (e # s) buf (p + got) (n - got) =
              (int (length bs), memcpy buf (p + got) bs, s)"
            using le by (simp add: Data)
          have step: "mitch_recv_tcp_loop (e # s) buf p n got =
              mitch_recv_tcp_loop s (memcpy buf (p + got) bs) p n (got + length bs)"
            using loop_step [OF lt r pos] by simp
          from Cons.prems have "k < p + (got + length bs) \<or> p + n \<le> k" by auto
          then have "fst (snd (mitch_recv_tcp_loop s (memcpy buf (p + got) bs) p n
              (got + length bs))) k = memcpy buf (p + got) bs k"
            by (rule Cons.IH)
          also have "\<dots> = buf k"
            using Cons.prems le lt by (intro memcpy_apply_other) auto
          finally show ?thesis by (simp add: step)
        next
          case gt: False
          with lt have pos: "0 < int (n - got)" by simp
          have r: "recv (e # s) buf (p + got) (n - got) =
              (int (n - got), memcpy buf (p + got) (take (n - got) bs),
               Data (drop (n - got) bs) # s)"
            using gt by (simp add: Data)
          have "mitch_recv_tcp_loop (e # s) buf p n got =
              mitch_recv_tcp_loop (Data (drop (n - got) bs) # s)
                (memcpy buf (p + got) (take (n - got) bs)) p n (got + (n - got))"
            using loop_step [OF lt r pos] by simp
          also have "\<dots> = (0, memcpy buf (p + got) (take (n - got) bs),
              Data (drop (n - got) bs) # s)"
            using lt by (intro loop_done) simp
          finally show ?thesis
            using Cons.prems gt lt by (auto simp add: memcpy_apply_other)
        qed
      qed
    qed
  qed
qed

section \<open>Receiving a message\<close>

lemma recv_tcp_ok:
  assumes "n \<le> length (avail s)"
  obtains s' where "mitch_recv_tcp s buf p n = (0, memcpy buf p (take n (avail s)), s')"
    and "avail s' = drop n (avail s)"
proof -
  from assms have "case mitch_recv_tcp_loop s buf p n 0 of (rc, buf', s') \<Rightarrow>
      rc = 0 \<and> buf' = memcpy buf (p + 0) (take (n - 0) (avail s)) \<and>
      avail s' = drop (n - 0) (avail s)"
    by (intro recv_tcp_loop_ok) simp_all
  then show ?thesis
    by (cases "mitch_recv_tcp_loop s buf p n 0") (auto simp add: mitch_recv_tcp_def intro: that)
qed

lemma recv_tcp_fail: "length (avail s) < n \<Longrightarrow> fst (mitch_recv_tcp s buf p n) = - 1"
  unfolding mitch_recv_tcp_def by (rule recv_tcp_loop_fail) simp

lemma recv_tcp_frame:
  "k < p \<or> p + n \<le> k \<Longrightarrow> fst (snd (mitch_recv_tcp s buf p n)) k = buf k"
  unfolding mitch_recv_tcp_def by (rule recv_tcp_loop_frame) simp

lemma header_bytes:
  "8 \<le> length xs \<Longrightarrow> memcpy buf 0 (take 8 xs) 0 = xs ! 0"
  "8 \<le> length xs \<Longrightarrow> memcpy buf 0 (take 8 xs) 7 = xs ! 7"
  by (simp_all add: memcpy_def)

lemma word_gt_nat: "(a > (b :: size_t)) = (unat b < unat a)"
  by (rule word_less_nat_alt)

text \<open>
  Claim C5. When the next eight bytes of the stream are a header with the order book tag
  \<open>'q'\<close> and a count other than 1, \<^verbatim>\<open>mitch_recv_message\<close> returns -3, has stored
  the eight header bytes at the start of the buffer and nothing else, and has taken
  exactly these eight bytes off the stream.
\<close>

theorem order_book_count_not_one:
  assumes "8 \<le> length (avail s)" and "avail s ! 0 = MITCH_MSG_TYPE_ORDER_BOOK"
    and "avail s ! 7 \<noteq> 1"
  shows "case mitch_recv_message s buffer buffer_size of (rc, buf', s') \<Rightarrow>
           rc = - 3 \<and> buf' = memcpy buffer 0 (take 8 (avail s)) \<and> avail s' = drop 8 (avail s)"
proof -
  from assms(1) obtain s1 where
    h: "mitch_recv_tcp s buffer 0 8 = (0, memcpy buffer 0 (take 8 (avail s)), s1)"
    and s1: "avail s1 = drop 8 (avail s)"
    by (rule recv_tcp_ok)
  show ?thesis
    using assms by (simp add: mitch_recv_message_def h s1 unpack_header_def header_bytes)
qed

theorem order_book_count_not_one_witness:
  "8 \<le> length (avail count_two_stream)
   \<and> avail count_two_stream ! 0 = MITCH_MSG_TYPE_ORDER_BOOK
   \<and> avail count_two_stream ! 7 \<noteq> 1
   \<and> (case mitch_recv_message count_two_stream zero_mem 64 of (rc, buf', s') \<Rightarrow>
         rc = - 3 \<and> buf' = memcpy zero_mem 0 [0x71, 0, 0, 0, 0, 0, 0, 2] \<and> avail s' = [9, 9])"
proof -
  have a: "avail count_two_stream = [0x71, 0, 0, 0, 0, 0, 0, 2, 9, 9]"
    by (simp add: count_two_stream_def)
  have h: "8 \<le> length (avail count_two_stream)"
    "avail count_two_stream ! 0 = MITCH_MSG_TYPE_ORDER_BOOK" "avail count_two_stream ! 7 \<noteq> 1"
    by (simp_all add: a MITCH_MSG_TYPE_ORDER_BOOK_def)
  from order_book_count_not_one [OF h, of zero_mem 64]
  have "case mitch_recv_message count_two_stream zero_mem 64 of (rc, buf', s') \<Rightarrow>
         rc = - 3 \<and> buf' = memcpy zero_mem 0 [0x71, 0, 0, 0, 0, 0, 0, 2] \<and> avail s' = [9, 9]"
    by (simp add: a)
  with h show ?thesis
    by (intro conjI)
qed

text \<open>
  Claim C6. When the next eight bytes of the stream are a header with a tag other than
  \<open>'q'\<close> and \<open>8 + 32 * count\<close> exceeds \<^verbatim>\<open>buffer_size\<close>, \<^verbatim>\<open>mitch_recv_message\<close>
  returns -2. The buffer then holds the header in its first eight bytes and is unchanged
  from offset 8 on, and only the header has been taken off the stream.
\<close>

theorem fixed_message_buffer_too_small:
  assumes "8 \<le> length (avail s)" and "avail s ! 0 \<noteq> MITCH_MSG_TYPE_ORDER_BOOK"
    and "unat buffer_size < 8 + 32 * unat (avail s ! 7)"
  shows "case mitch_recv_message s buffer buffer_size of (rc, buf', s') \<Rightarrow>
           rc = - 2 \<and> buf' = memcpy buffer 0 (take 8 (avail s)) \<and>
           load buf' 8 n = load buffer 8 n \<and> avail s' = drop 8 (avail s)"
proof -
  from assms(1) obtain s1 where
    h: "mitch_recv_tcp s buffer 0 8 = (0, memcpy buffer 0 (take 8 (avail s)), s1)"
    and s1: "avail s1 = drop 8 (avail s)"
    by (rule recv_tcp_ok)
  have l: "load (memcpy buffer 0 (take 8 (avail s))) 8 n = load buffer 8 n"
    using assms(1) by (intro load_memcpy_other) simp
  show ?thesis
    using assms
    by (simp add: mitch_recv_message_def h s1 unpack_header_def header_bytes Let_def
        word_gt_nat unat_size_total_fixed l)
qed

theorem fixed_message_buffer_too_small_witness:
  "8 \<le> length (avail trade_stream)
   \<and> avail trade_stream ! 0 \<noteq> MITCH_MSG_TYPE_ORDER_BOOK
   \<and> unat (39 :: size_t) < 8 + 32 * unat (avail trade_stream ! 7)
   \<and> (case mitch_recv_message trade_stream zero_mem 39 of (rc, buf', s') \<Rightarrow>
         rc = - 2 \<and> buf' = memcpy zero_mem 0 [0x74, 0, 0, 0, 0, 0, 0, 1] \<and>
         load buf' 8 32 = load zero_mem 8 32 \<and> length (avail s') = 32)"
proof -
  have a: "avail trade_stream = [0x74, 0, 0, 0, 0, 0, 0, 1, 0, 0] @ replicate 30 7"
    by (simp add: trade_stream_def)
  have h: "8 \<le> length (avail trade_stream)"
    "avail trade_stream ! 0 \<noteq> MITCH_MSG_TYPE_ORDER_BOOK"
    "unat (39 :: size_t) < 8 + 32 * unat (avail trade_stream ! 7)"
    by (simp_all add: a MITCH_MSG_TYPE_ORDER_BOOK_def)
  from fixed_message_buffer_too_small [OF h, of zero_mem 32]
  have "case mitch_recv_message trade_stream zero_mem 39 of (rc, buf', s') \<Rightarrow>
         rc = - 2 \<and> buf' = memcpy zero_mem 0 [0x74, 0, 0, 0, 0, 0, 0, 1] \<and>
         load buf' 8 32 = load zero_mem 8 32 \<and> length (avail s') = 32"
    by (auto simp add: a)
  with h show ?thesis
    by (intro conjI)
qed

text \<open>
  Claim C10. When the next eight bytes of the stream are a header with a tag other than
  \<open>'q'\<close> and a count of 0, and \<^verbatim>\<open>buffer_size\<close> is at least 8,
  \<^verbatim>\<open>mitch_recv_message\<close> returns 8: the count of 0 is accepted. It reads nothing after
  the header and leaves the buffer unchanged from offset 8 on.
\<close>

theorem count_zero_accepted:
  assumes "8 \<le> length (avail s)" and "avail s ! 0 \<noteq> MITCH_MSG_TYPE_ORDER_BOOK"
    and "avail s ! 7 = 0" and "8 \<le> unat buffer_size"
  shows "case mitch_recv_message s buffer buffer_size of (rc, buf', s') \<Rightarrow>
           rc = 8 \<and> buf' = memcpy buffer 0 (take 8 (avail s)) \<and>
           load buf' 8 n = load buffer 8 n \<and> avail s' = drop 8 (avail s)"
proof -
  from assms(1) obtain s1 where
    h: "mitch_recv_tcp s buffer 0 8 = (0, memcpy buffer 0 (take 8 (avail s)), s1)"
    and s1: "avail s1 = drop 8 (avail s)"
    by (rule recv_tcp_ok)
  have l: "load (memcpy buffer 0 (take 8 (avail s))) 8 n = load buffer 8 n"
    using assms(1) by (intro load_memcpy_other) simp
  show ?thesis
    using assms
    by (simp add: mitch_recv_message_def h s1 unpack_header_def header_bytes Let_def
        word_gt_nat l)
qed

theorem count_zero_accepted_witness:
  "8 \<le> length (avail empty_trade_stream)
   \<and> avail empty_trade_stream ! 0 \<noteq> MITCH_MSG_TYPE_ORDER_BOOK
   \<and> avail empty_trade_stream ! 7 = 0
   \<and> 8 \<le> unat (8 :: size_t)
   \<and> (case mitch_recv_message empty_trade_stream zero_mem 8 of (rc, buf', s') \<Rightarrow>
         rc = 8 \<and> buf' = memcpy zero_mem 0 [0x74, 0, 0, 0, 0, 0, 0, 0] \<and>
         load buf' 8 32 = load zero_mem 8 32 \<and> avail s' = [0x74, 1])"
proof -
  have a: "avail empty_trade_stream = [0x74, 0, 0, 0, 0, 0, 0, 0, 0x74, 1]"
    by (simp add: empty_trade_stream_def)
  have h: "8 \<le> length (avail empty_trade_stream)"
    "avail empty_trade_stream ! 0 \<noteq> MITCH_MSG_TYPE_ORDER_BOOK"
    "avail empty_trade_stream ! 7 = 0" "8 \<le> unat (8 :: size_t)"
    by (simp_all add: a MITCH_MSG_TYPE_ORDER_BOOK_def)
  from count_zero_accepted [OF h, of zero_mem 32]
  have "case mitch_recv_message empty_trade_stream zero_mem 8 of (rc, buf', s') \<Rightarrow>
         rc = 8 \<and> buf' = memcpy zero_mem 0 [0x74, 0, 0, 0, 0, 0, 0, 0] \<and>
         load buf' 8 32 = load zero_mem 8 32 \<and> avail s' = [0x74, 1]"
    by (auto simp add: a)
  with h show ?thesis
    by (intro conjI)
qed

section \<open>The order book path of the receiver\<close>

lemma take_take_drop: "take a xs @ take b (drop a xs) = take (a + b) xs"
  by (simp add: take_add)

lemma prefix_memcpy:
  assumes "8 \<le> length xs"
  shows "memcpy (memcpy buf 0 (take 8 xs)) 8 (take 32 (drop 8 xs)) = memcpy buf 0 (take 40 xs)"
proof -
  from assms have "length (take 8 xs) = 8" by simp
  then have "memcpy (memcpy buf 0 (take 8 xs)) 8 (take 32 (drop 8 xs)) =
      memcpy buf 0 (take 8 xs @ take 32 (drop 8 xs))"
    using memcpy_append [of buf 0 "take 8 xs" "take 32 (drop 8 xs)"] by simp
  then show ?thesis
    by (simp add: take_take_drop)
qed

lemma get_be16_prefix:
  "40 \<le> length xs \<Longrightarrow> get_be16 (memcpy buf 0 (take 40 xs)) 32 = wire_num_ticks xs"
  by (simp add: get_be16_def load2 memcpy_def wire_num_ticks_def)

lemma unat_size_total_ob_40:
  "unat (40 + ucast (nt :: u16) * 4 :: size_t) = 40 + 4 * unat nt"
  using unat_size_total_ob [of nt] by simp

lemma order_book_path:
  assumes "40 \<le> length (avail s)" and "avail s ! 0 = MITCH_MSG_TYPE_ORDER_BOOK"
    and "avail s ! 7 = 1"
  obtains s2 where "avail s2 = drop 40 (avail s)" and
    "mitch_recv_message s buffer buffer_size =
      (if unat buffer_size < 8 + (32 + 4 * unat (wire_num_ticks (avail s)))
       then (- 2, memcpy buffer 0 (take 40 (avail s)), s2)
       else if 0 < unat (wire_num_ticks (avail s)) then
         (case mitch_recv_tcp s2 (memcpy buffer 0 (take 40 (avail s))) 40
                 (4 * unat (wire_num_ticks (avail s))) of
            (rc, b, s') \<Rightarrow>
              if rc \<noteq> 0 then (- 1, b, s')
              else (ucast (8 + (32 + ucast (wire_num_ticks (avail s)) * 4) :: size_t), b, s'))
       else (ucast (8 + (32 + ucast (wire_num_ticks (avail s)) * 4) :: size_t),
             memcpy buffer 0 (take 40 (avail s)), s2))"
proof -
  from assms(1) have l8: "8 \<le> length (avail s)" by simp
  then obtain s1 where
    h1: "mitch_recv_tcp s buffer 0 8 = (0, memcpy buffer 0 (take 8 (avail s)), s1)"
    and s1: "avail s1 = drop 8 (avail s)"
    by (rule recv_tcp_ok)
  from assms(1) have "32 \<le> length (avail s1)" by (simp add: s1)
  then obtain s2 where
    h2': "mitch_recv_tcp s1 (memcpy buffer 0 (take 8 (avail s))) 8 32 =
      (0, memcpy (memcpy buffer 0 (take 8 (avail s))) 8 (take 32 (avail s1)), s2)"
    and s2': "avail s2 = drop 32 (avail s1)"
    by (rule recv_tcp_ok)
  from h2' have h2: "mitch_recv_tcp s1 (memcpy buffer 0 (take 8 (avail s))) 8 32 =
      (0, memcpy buffer 0 (take 40 (avail s)), s2)"
    by (simp add: s1 prefix_memcpy [OF l8])
  from s2' have s2: "avail s2 = drop 40 (avail s)"
    by (simp add: s1)
  have m: "mitch_recv_message s buffer buffer_size =
      (if unat buffer_size < 8 + (32 + 4 * unat (wire_num_ticks (avail s)))
       then (- 2, memcpy buffer 0 (take 40 (avail s)), s2)
       else if 0 < unat (wire_num_ticks (avail s)) then
         (case mitch_recv_tcp s2 (memcpy buffer 0 (take 40 (avail s))) 40
                 (4 * unat (wire_num_ticks (avail s))) of
            (rc, b, s') \<Rightarrow>
              if rc \<noteq> 0 then (- 1, b, s')
              else (ucast (8 + (32 + ucast (wire_num_ticks (avail s)) * 4) :: size_t), b, s'))
       else (ucast (8 + (32 + ucast (wire_num_ticks (avail s)) * 4) :: size_t),
             memcpy buffer 0 (take 40 (avail s)), s2))"
    using assms l8
    by (simp add: mitch_recv_message_def h1 h2 unpack_header_def header_bytes Let_def
        word_gt_nat unat_size_total_ob_40 unat_size_volumes get_be16_prefix
        split: prod.split)
  from s2 m show ?thesis
    by (rule that)
qed


lemma sint_order_book_total:
  "sint (ucast (40 + ucast (nt :: u16) * 4 :: size_t) :: cint) = 40 + 4 * int (unat nt)"
proof -
  have "unat (40 + ucast nt * 4 :: size_t) < 2 ^ 31"
    using unat_u16_bound [of nt] by (simp add: unat_size_total_ob_40)
  then have "sint (ucast (40 + ucast nt * 4 :: size_t) :: cint) =
      int (unat (40 + ucast nt * 4 :: size_t))"
    by (rule sint_ucast_size)
  then show ?thesis
    by (simp add: unat_size_total_ob_40)
qed

lemma order_book_total_not_error:
  "(ucast (40 + ucast (nt :: u16) * 4 :: size_t) :: cint) \<noteq> - 2"
proof
  assume "(ucast (40 + ucast nt * 4 :: size_t) :: cint) = - 2"
  then have "sint (ucast (40 + ucast nt * 4 :: size_t) :: cint) = - 2"
    by simp
  moreover have "sint (ucast (40 + ucast nt * 4 :: size_t) :: cint) = 40 + 4 * int (unat nt)"
    by (rule sint_order_book_total)
  ultimately have "40 + 4 * int (unat nt) = - 2"
    by linarith
  then show False
    by linarith
qed

lemma load_prefix:
  assumes "40 \<le> length xs"
  shows "load (memcpy buf 0 (take 40 xs)) 8 32 = take 32 (drop 8 xs)"
  using assms by (intro nth_equalityI) (simp_all add: memcpy_def)

text \<open>
  Claim C9. When the stream delivers a header with the tag \<open>'q'\<close> and count 1 and the 32
  bytes after it, \<^verbatim>\<open>mitch_recv_message\<close> stores these 32 bytes at offset 8 of the buffer
  whatever \<^verbatim>\<open>buffer_size\<close> is: they are there when it returns. With a
  \<^verbatim>\<open>buffer_size\<close> below 40 it then returns -2, and the buffer holds the 40 bytes read.
\<close>

theorem order_book_prefix_stored_before_check:
  assumes "40 \<le> length (avail s)" and "avail s ! 0 = MITCH_MSG_TYPE_ORDER_BOOK"
    and "avail s ! 7 = 1"
  shows "case mitch_recv_message s buffer buffer_size of (rc, buf', s') \<Rightarrow>
           load buf' 8 32 = take 32 (drop 8 (avail s)) \<and>
           (unat buffer_size < 40 \<longrightarrow>
              rc = - 2 \<and> buf' = memcpy buffer 0 (take 40 (avail s)) \<and>
              avail s' = drop 40 (avail s))"
proof -
  let ?b2 = "memcpy buffer 0 (take 40 (avail s))"
  let ?n = "unat (wire_num_ticks (avail s))"
  from assms obtain s2 where s2: "avail s2 = drop 40 (avail s)" and
    m: "mitch_recv_message s buffer buffer_size =
      (if unat buffer_size < 8 + (32 + 4 * ?n) then (- 2, ?b2, s2)
       else if 0 < ?n then
         (case mitch_recv_tcp s2 ?b2 40 (4 * ?n) of
            (rc, b, s') \<Rightarrow>
              if rc \<noteq> 0 then (- 1, b, s')
              else (ucast (8 + (32 + ucast (wire_num_ticks (avail s)) * 4) :: size_t), b, s'))
       else (ucast (8 + (32 + ucast (wire_num_ticks (avail s)) * 4) :: size_t), ?b2, s2))"
    by (rule order_book_path)
  have p: "load ?b2 8 32 = take 32 (drop 8 (avail s))"
    using assms(1) by (rule load_prefix)
  have "load (fst (snd (mitch_recv_tcp s2 ?b2 40 (4 * ?n)))) 8 32 = load ?b2 8 32"
    by (rule load_cong) (simp add: recv_tcp_frame)
  with p have q: "load (fst (snd (mitch_recv_tcp s2 ?b2 40 (4 * ?n)))) 8 32 =
      take 32 (drop 8 (avail s))"
    by simp
  show ?thesis
    using p q by (simp add: m s2 case_prod_unfold)
qed

theorem order_book_prefix_stored_before_check_witness:
  "40 \<le> length (avail max_ticks_stream)
   \<and> avail max_ticks_stream ! 0 = MITCH_MSG_TYPE_ORDER_BOOK
   \<and> avail max_ticks_stream ! 7 = 1
   \<and> unat (8 :: size_t) < 40
   \<and> (case mitch_recv_message max_ticks_stream zero_mem 8 of (rc, buf', s') \<Rightarrow>
         rc = - 2 \<and> load buf' 8 32 = replicate 24 0 @ [0xFF, 0xFF, 0] @ replicate 5 0)"
proof -
  have a: "avail max_ticks_stream =
      [0x71, 0, 0, 0, 0, 0, 0, 1] @ replicate 24 0 @ [0xFF, 0xFF, 0] @ replicate 5 0"
    by (simp add: max_ticks_stream_def)
  have h: "40 \<le> length (avail max_ticks_stream)"
    "avail max_ticks_stream ! 0 = MITCH_MSG_TYPE_ORDER_BOOK" "avail max_ticks_stream ! 7 = 1"
    by (simp_all add: a MITCH_MSG_TYPE_ORDER_BOOK_def)
  have b: "unat (8 :: size_t) < 40"
    by simp
  from order_book_prefix_stored_before_check [OF h, where buffer = zero_mem and buffer_size = 8]
  have "case mitch_recv_message max_ticks_stream zero_mem 8 of (rc, buf', s') \<Rightarrow>
         rc = - 2 \<and> load buf' 8 32 = replicate 24 0 @ [0xFF, 0xFF, 0] @ replicate 5 0"
    by (auto simp add: a)
  with h b show ?thesis
    by (intro conjI)
qed

text \<open>
  Claim C2. For every \<^verbatim>\<open>num_ticks\<close> from 0 to 65535, \<^verbatim>\<open>pack_order_book_body\<close> returns
  \<open>32 + 4 * num_ticks\<close> as an \<^verbatim>\<open>int\<close>, and \<^verbatim>\<open>mitch_recv_message\<close>, once it has read
  the header and the prefix of an order book message, returns -2 exactly when
  \<open>8 + (32 + 4 * num_ticks)\<close>, computed without wrap-around, exceeds \<^verbatim>\<open>buffer_size\<close>;
  when the message fits and arrives, it returns \<open>8 + (32 + 4 * num_ticks)\<close>. For 65535
  ticks the body is 262172 bytes long.
\<close>

theorem body_length_exact:
  assumes "40 \<le> length (avail s)" and "avail s ! 0 = MITCH_MSG_TYPE_ORDER_BOOK"
    and "avail s ! 7 = 1"
  shows "sint (snd (pack_order_book_body b volumes buf)) = 32 + 4 * int (unat (num_ticks b))
       \<and> (fst (mitch_recv_message s buffer buffer_size) = - 2) =
           (unat buffer_size < 8 + (32 + 4 * unat (wire_num_ticks (avail s))))
       \<and> (8 + (32 + 4 * unat (wire_num_ticks (avail s))) \<le> unat buffer_size \<and>
            8 + (32 + 4 * unat (wire_num_ticks (avail s))) \<le> length (avail s) \<longrightarrow>
          sint (fst (mitch_recv_message s buffer buffer_size)) =
            8 + (32 + 4 * int (unat (wire_num_ticks (avail s)))))"
proof -
  let ?b2 = "memcpy buffer 0 (take 40 (avail s))"
  let ?nt = "wire_num_ticks (avail s)"
  let ?n = "unat ?nt"
  from assms obtain s2 where s2: "avail s2 = drop 40 (avail s)" and
    m: "mitch_recv_message s buffer buffer_size =
      (if unat buffer_size < 8 + (32 + 4 * ?n) then (- 2, ?b2, s2)
       else if 0 < ?n then
         (case mitch_recv_tcp s2 ?b2 40 (4 * ?n) of
            (rc, b, s') \<Rightarrow>
              if rc \<noteq> 0 then (- 1, b, s')
              else (ucast (8 + (32 + ucast ?nt * 4) :: size_t), b, s'))
       else (ucast (8 + (32 + ucast ?nt * 4) :: size_t), ?b2, s2))"
    by (rule order_book_path)
  have pack: "sint (snd (pack_order_book_body b volumes buf)) =
      32 + 4 * int (unat (num_ticks b))"
    by (simp add: pack_order_book_body_def Let_def sint_body_len)
  have ne: "(ucast (40 + ucast ?nt * 4 :: size_t) :: cint) \<noteq> - 2"
    by (rule order_book_total_not_error)
  have cmp: "(fst (mitch_recv_message s buffer buffer_size) = - 2) =
      (unat buffer_size < 8 + (32 + 4 * ?n))"
    using ne by (simp add: m case_prod_unfold)
  have ret: "sint (fst (mitch_recv_message s buffer buffer_size)) = 8 + (32 + 4 * int ?n)"
    if big: "8 + (32 + 4 * ?n) \<le> unat buffer_size" and all: "8 + (32 + 4 * ?n) \<le> length (avail s)"
  proof -
    from all have "4 * ?n \<le> length (avail s2)"
      by (simp add: s2)
    then obtain s3 where "mitch_recv_tcp s2 ?b2 40 (4 * ?n) =
        (0, memcpy ?b2 40 (take (4 * ?n) (avail s2)), s3)"
      by (rule recv_tcp_ok)
    then have t: "fst (mitch_recv_tcp s2 ?b2 40 (4 * ?n)) = 0"
      by simp
    have r: "fst (mitch_recv_message s buffer buffer_size) =
        ucast (40 + ucast ?nt * 4 :: size_t)"
      using big t by (simp add: m case_prod_unfold)
    show ?thesis
      unfolding r by (simp add: sint_order_book_total)
  qed
  from pack cmp ret show ?thesis
    by blast
qed

theorem body_length_exact_witness:
  "40 \<le> length (avail max_ticks_stream)
   \<and> avail max_ticks_stream ! 0 = MITCH_MSG_TYPE_ORDER_BOOK
   \<and> avail max_ticks_stream ! 7 = 1
   \<and> unat (wire_num_ticks (avail max_ticks_stream)) = 65535
   \<and> sint (snd (pack_order_book_body (example_book\<lparr>num_ticks := 65535\<rparr>) (array_of [] 0)
         zero_mem)) = 262172
   \<and> fst (mitch_recv_message max_ticks_stream zero_mem 262179) = - 2
   \<and> fst (mitch_recv_message max_ticks_stream zero_mem 262180) \<noteq> - 2"
proof -
  have a: "avail max_ticks_stream =
      [0x71, 0, 0, 0, 0, 0, 0, 1] @ replicate 24 0 @ [0xFF, 0xFF, 0] @ replicate 5 0"
    by (simp add: max_ticks_stream_def)
  have h: "40 \<le> length (avail max_ticks_stream)"
    "avail max_ticks_stream ! 0 = MITCH_MSG_TYPE_ORDER_BOOK" "avail max_ticks_stream ! 7 = 1"
    by (simp_all add: a MITCH_MSG_TYPE_ORDER_BOOK_def)
  have w: "unat (wire_num_ticks (avail max_ticks_stream)) = 65535"
    by (simp add: a wire_num_ticks_def nth_append)
  note c1 = body_length_exact [OF h, where buffer = zero_mem and buffer_size = 262179
      and b = "example_book\<lparr>num_ticks := 65535\<rparr>" and volumes = "array_of [] 0"
      and buf = zero_mem]
  note c2 = body_length_exact [OF h, where buffer = zero_mem and buffer_size = 262180
      and b = "example_book\<lparr>num_ticks := 65535\<rparr>" and volumes = "array_of [] 0"
      and buf = zero_mem]
  from c1 have p: "sint (snd (pack_order_book_body (example_book\<lparr>num_ticks := 65535\<rparr>)
      (array_of [] 0) zero_mem)) = 262172"
    by simp
  from c1 have r1: "fst (mitch_recv_message max_ticks_stream zero_mem 262179) = - 2"
    by (simp add: w)
  from c2 have r2: "fst (mitch_recv_message max_ticks_stream zero_mem 262180) \<noteq> - 2"
    by (simp add: w)
  from h w p r1 r2 show ?thesis
    by (intro conjI)
qed

section \<open>Partial reads\<close>

lemma avail_map_Data: "[] \<notin> set chunks \<Longrightarrow> avail (map Data chunks) = concat chunks"
  by (induction chunks) auto

lemma memcpy_take_drop:
  assumes "a \<le> length xs"
  shows "memcpy (memcpy buf 0 (take a xs)) a (take b (drop a xs)) = memcpy buf 0 (take (a + b) xs)"
proof -
  from assms have "length (take a xs) = a" by simp
  then have "memcpy (memcpy buf 0 (take a xs)) a (take b (drop a xs)) =
      memcpy buf 0 (take a xs @ take b (drop a xs))"
    using memcpy_append [of buf 0 "take a xs" "take b (drop a xs)"] by simp
  then show ?thesis
    by (simp add: take_take_drop)
qed

lemma sint_fixed_total:
  "sint (ucast (8 + ucast (c :: u8) * 32 :: size_t) :: cint) = 8 + 32 * int (unat c)"
proof -
  have "unat (8 + ucast c * 32 :: size_t) < 2 ^ 31"
    using unat_u8_bound [of c] by (simp add: unat_size_total_fixed)
  then have "sint (ucast (8 + ucast c * 32 :: size_t) :: cint) =
      int (unat (8 + ucast c * 32 :: size_t))"
    by (rule sint_ucast_size)
  then show ?thesis
    by (simp add: unat_size_total_fixed)
qed

lemma fixed_path:
  assumes "8 \<le> length (avail s)" and "avail s ! 0 \<noteq> MITCH_MSG_TYPE_ORDER_BOOK"
  obtains s1 where "avail s1 = drop 8 (avail s)" and
    "mitch_recv_message s buffer buffer_size =
      (if unat buffer_size < 8 + 32 * unat (avail s ! 7)
       then (- 2, memcpy buffer 0 (take 8 (avail s)), s1)
       else if 0 < unat (avail s ! 7) then
         (case mitch_recv_tcp s1 (memcpy buffer 0 (take 8 (avail s))) 8
                 (32 * unat (avail s ! 7)) of
            (rc, b, s') \<Rightarrow>
              if rc \<noteq> 0 then (- 1, b, s')
              else (ucast (8 + ucast (avail s ! 7) * 32 :: size_t), b, s'))
       else (ucast (8 + ucast (avail s ! 7) * 32 :: size_t),
             memcpy buffer 0 (take 8 (avail s)), s1))"
proof -
  from assms(1) obtain s1 where
    h1: "mitch_recv_tcp s buffer 0 8 = (0, memcpy buffer 0 (take 8 (avail s)), s1)"
    and s1: "avail s1 = drop 8 (avail s)"
    by (rule recv_tcp_ok)
  have m: "mitch_recv_message s buffer buffer_size =
      (if unat buffer_size < 8 + 32 * unat (avail s ! 7)
       then (- 2, memcpy buffer 0 (take 8 (avail s)), s1)
       else if 0 < unat (avail s ! 7) then
         (case mitch_recv_tcp s1 (memcpy buffer 0 (take 8 (avail s))) 8
                 (32 * unat (avail s ! 7)) of
            (rc, b, s') \<Rightarrow>
              if rc \<noteq> 0 then (- 1, b, s')
              else (ucast (8 + ucast (avail s ! 7) * 32 :: size_t), b, s'))
       else (ucast (8 + ucast (avail s ! 7) * 32 :: size_t),
             memcpy buffer 0 (take 8 (avail s)), s1))"
    using assms
    by (simp add: mitch_recv_message_def h1 unpack_header_def header_bytes Let_def
        word_gt_nat unat_size_total_fixed unat_size_body_fixed split: prod.split)
  from s1 m show ?thesis
    by (rule that)
qed

lemma recv_message_complete:
  assumes c: "complete_message msg" and a: "avail s = msg @ rest"
    and big: "length msg \<le> unat buffer_size"
  shows "case mitch_recv_message s buffer buffer_size of (rc, buf', s') \<Rightarrow>
           sint rc = int (length msg) \<and> buf' = memcpy buffer 0 msg \<and> avail s' = rest"
proof (cases "msg ! 0 = MITCH_MSG_TYPE_ORDER_BOOK")
  case False
  let ?c = "unat (msg ! 7)"
  from c False have len: "length msg = 8 + 32 * ?c"
    by (simp add: complete_message_def)
  have l8: "8 \<le> length (avail s)" using len a by simp
  have x0: "avail s ! 0 = msg ! 0" and x7: "avail s ! 7 = msg ! 7"
    using len by (auto simp add: a nth_append)
  have t8: "take 8 (avail s) = take 8 msg"
    using len by (simp add: a)
  from False have nq: "avail s ! 0 \<noteq> MITCH_MSG_TYPE_ORDER_BOOK"
    by (simp add: x0)
  from l8 nq obtain s1 where s1: "avail s1 = drop 8 (avail s)" and
    m: "mitch_recv_message s buffer buffer_size =
      (if unat buffer_size < 8 + 32 * unat (avail s ! 7)
       then (- 2, memcpy buffer 0 (take 8 (avail s)), s1)
       else if 0 < unat (avail s ! 7) then
         (case mitch_recv_tcp s1 (memcpy buffer 0 (take 8 (avail s))) 8
                 (32 * unat (avail s ! 7)) of
            (rc, b, s') \<Rightarrow>
              if rc \<noteq> 0 then (- 1, b, s')
              else (ucast (8 + ucast (avail s ! 7) * 32 :: size_t), b, s'))
       else (ucast (8 + ucast (avail s ! 7) * 32 :: size_t),
             memcpy buffer 0 (take 8 (avail s)), s1))"
    by (rule fixed_path)
  have ret: "sint (ucast (8 + ucast (msg ! 7) * 32 :: size_t) :: cint) = int (length msg)"
    by (simp add: sint_fixed_total len)
  show ?thesis
  proof (cases "0 < ?c")
    case True
    have "32 * ?c \<le> length (avail s1)"
      using len by (simp add: s1 a)
    then obtain s3 where
      h: "mitch_recv_tcp s1 (memcpy buffer 0 (take 8 (avail s))) 8 (32 * ?c) =
        (0, memcpy (memcpy buffer 0 (take 8 (avail s))) 8 (take (32 * ?c) (avail s1)), s3)"
      and s3: "avail s3 = drop (32 * ?c) (avail s1)"
      by (rule recv_tcp_ok)
    have b: "memcpy (memcpy buffer 0 (take 8 (avail s))) 8 (take (32 * ?c) (avail s1)) =
        memcpy buffer 0 msg"
      using memcpy_take_drop [OF l8, of buffer "32 * ?c"] len by (simp add: s1 a)
    have r: "avail s3 = rest"
      using len by (simp add: s3 s1 a)
    show ?thesis
      using True big len ret by (simp add: m x7 h b r)
  next
    case False
    then have "length msg = 8" using len by simp
    then have "memcpy buffer 0 (take 8 (avail s)) = memcpy buffer 0 msg" "avail s1 = rest"
      by (simp_all add: s1 a)
    then show ?thesis
      using False big len ret by (simp add: m x7)
  qed
next
  case True
  let ?nt = "wire_num_ticks msg"
  let ?n = "unat ?nt"
  from c True have cnt: "msg ! 7 = 1" and l40: "40 \<le> length msg"
    and len: "length msg = 8 + (32 + 4 * ?n)"
    by (simp_all add: complete_message_def)
  have l40': "40 \<le> length (avail s)" using l40 a by simp
  have x0: "avail s ! 0 = MITCH_MSG_TYPE_ORDER_BOOK" and x7: "avail s ! 7 = 1"
    using l40 True cnt by (auto simp add: a nth_append)
  have w: "wire_num_ticks (avail s) = ?nt"
    using l40 by (simp add: wire_num_ticks_def a nth_append)
  from l40' x0 x7 obtain s2 where s2: "avail s2 = drop 40 (avail s)" and
    m: "mitch_recv_message s buffer buffer_size =
      (if unat buffer_size < 8 + (32 + 4 * unat (wire_num_ticks (avail s)))
       then (- 2, memcpy buffer 0 (take 40 (avail s)), s2)
       else if 0 < unat (wire_num_ticks (avail s)) then
         (case mitch_recv_tcp s2 (memcpy buffer 0 (take 40 (avail s))) 40
                 (4 * unat (wire_num_ticks (avail s))) of
            (rc, b, s') \<Rightarrow>
              if rc \<noteq> 0 then (- 1, b, s')
              else (ucast (8 + (32 + ucast (wire_num_ticks (avail s)) * 4) :: size_t), b, s'))
       else (ucast (8 + (32 + ucast (wire_num_ticks (avail s)) * 4) :: size_t),
             memcpy buffer 0 (take 40 (avail s)), s2))"
    by (rule order_book_path)
  have ret: "sint (ucast (40 + ucast ?nt * 4 :: size_t) :: cint) = int (length msg)"
    by (simp add: sint_order_book_total len)
  show ?thesis
  proof (cases "0 < ?n")
    case pos: True
    have "4 * ?n \<le> length (avail s2)"
      using len by (simp add: s2 a)
    then obtain s3 where
      h: "mitch_recv_tcp s2 (memcpy buffer 0 (take 40 (avail s))) 40 (4 * ?n) =
        (0, memcpy (memcpy buffer 0 (take 40 (avail s))) 40 (take (4 * ?n) (avail s2)), s3)"
      and s3: "avail s3 = drop (4 * ?n) (avail s2)"
      by (rule recv_tcp_ok)
    have b: "memcpy (memcpy buffer 0 (take 40 (avail s))) 40 (take (4 * ?n) (avail s2)) =
        memcpy buffer 0 msg"
      using memcpy_take_drop [OF l40', of buffer "4 * ?n"] len by (simp add: s2 a)
    have r: "avail s3 = rest"
      using len by (simp add: s3 s2 a)
    show ?thesis
      using pos big len ret by (simp add: m w h b r)
  next
    case False
    then have "length msg = 40" using len by simp
    then have "memcpy buffer 0 (take 40 (avail s)) = memcpy buffer 0 msg" "avail s2 = rest"
      by (simp_all add: s2 a)
    then show ?thesis
      using False big len ret by (simp add: m w)
  qed
qed


text \<open>
  Claim C7. When the stream delivers a complete message in segments of any sizes, none of
  them empty, and the message fits into \<^verbatim>\<open>buffer_size\<close>, \<^verbatim>\<open>mitch_recv_message\<close>
  returns the length of the message, \<open>8 + body_len\<close>, with the bytes of the message at
  the start of the buffer and the rest of the stream untouched. \<^verbatim>\<open>mitch_recv_tcp\<close>
  returns 0 with exactly the \<open>n\<close> bytes asked for in the buffer when the stream delivers
  that many, and -1 when the stream fails or ends before.
\<close>

theorem partial_reads_assemble:
  assumes "[] \<notin> set chunks" and "concat chunks = msg @ rest"
    and "complete_message msg" and "length msg \<le> unat buffer_size"
  shows "(case mitch_recv_message (map Data chunks) buffer buffer_size of (rc, buf', s') \<Rightarrow>
            sint rc = int (length msg) \<and> buf' = memcpy buffer 0 msg \<and> avail s' = rest)
       \<and> (n \<le> length (avail s) \<longrightarrow>
            (case mitch_recv_tcp s buf p n of (rc, buf', s') \<Rightarrow>
               rc = 0 \<and> buf' = memcpy buf p (take n (avail s)) \<and> avail s' = drop n (avail s)))
       \<and> (length (avail s) < n \<longrightarrow> fst (mitch_recv_tcp s buf p n) = - 1)"
proof -
  from assms(1,2) have "avail (map Data chunks) = msg @ rest"
    by (simp add: avail_map_Data)
  with assms(3) have "case mitch_recv_message (map Data chunks) buffer buffer_size of
      (rc, buf', s') \<Rightarrow>
        sint rc = int (length msg) \<and> buf' = memcpy buffer 0 msg \<and> avail s' = rest"
    using assms(4) by (rule recv_message_complete)
  moreover have "case mitch_recv_tcp s buf p n of (rc, buf', s') \<Rightarrow>
      rc = 0 \<and> buf' = memcpy buf p (take n (avail s)) \<and> avail s' = drop n (avail s)"
    if "n \<le> length (avail s)"
  proof -
    from that obtain s' where "mitch_recv_tcp s buf p n = (0, memcpy buf p (take n (avail s)), s')"
      and "avail s' = drop n (avail s)"
      by (rule recv_tcp_ok)
    then show ?thesis by simp
  qed
  moreover have "fst (mitch_recv_tcp s buf p n) = - 1" if "length (avail s) < n"
    using that by (rule recv_tcp_fail)
  ultimately show ?thesis
    by blast
qed

theorem partial_reads_assemble_witness:
  "[] \<notin> set trade_chunks
   \<and> concat trade_chunks = trade_message @ []
   \<and> complete_message trade_message
   \<and> length trade_message \<le> unat (40 :: size_t)
   \<and> map length trade_chunks = [3, 10, 27]
   \<and> (case mitch_recv_message (map Data trade_chunks) zero_mem 40 of (rc, buf', s') \<Rightarrow>
         sint rc = 40 \<and> buf' = memcpy zero_mem 0 trade_message \<and> avail s' = [])"
proof -
  have h: "[] \<notin> set trade_chunks" "concat trade_chunks = trade_message @ []"
    "complete_message trade_message" "length trade_message \<le> unat (40 :: size_t)"
    by (simp_all add: trade_chunks_def trade_message_def complete_message_def
        MITCH_MSG_TYPE_ORDER_BOOK_def)
  have l: "map length trade_chunks = [3, 10, 27]"
    by (simp add: trade_chunks_def trade_message_def)
  have n: "int (length trade_message) = 40"
    by (simp add: trade_message_def)
  from partial_reads_assemble [OF h, where buffer = zero_mem]
  have "case mitch_recv_message (map Data trade_chunks) zero_mem 40 of (rc, buf', s') \<Rightarrow>
      sint rc = int (length trade_message) \<and> buf' = memcpy zero_mem 0 trade_message \<and>
      avail s' = []"
    by (rule conjunct1)
  then have "case mitch_recv_message (map Data trade_chunks) zero_mem 40 of (rc, buf', s') \<Rightarrow>
      sint rc = 40 \<and> buf' = memcpy zero_mem 0 trade_message \<and> avail s' = []"
    by (simp only: n)
  with h l show ?thesis
    by (intro conjI)
qed

end
